theory Spec2Isabelle
  imports Complex_Main "HOL-Library.AList"
begin

section \<open>Data model of the process monitor\<close>

text \<open>
  The monitor (\<^verbatim>\<open>src/monitor/monitor.py\<close>) keeps three dictionaries between snapshots:
  \<^verbatim>\<open>previous_io_counters\<close>, \<^verbatim>\<open>process_objects_cache\<close> and \<^verbatim>\<open>current_snapshot_data\<close>.
  Process ids are Python integers (\<open>int\<close>). Python floats (the CPU percentages) are
  modelled as \<open>real\<close>: sums and \<open>min\<close> are exact here, rounding is not modelled.
  A dictionary that the program iterates over (\<^verbatim>\<open>current_snapshot_data\<close>) is an association
  list in insertion order, written with \<open>AList.update\<close> (replace in place, else append);
  a dictionary that is only looked up is a map.
\<close>

text \<open>The object returned by \<^verbatim>\<open>process.io_counters()\<close>; only two attributes are read.\<close>

record io_counters =
  read_bytes :: int
  write_bytes :: int

text \<open>
  One entry of \<^verbatim>\<open>current_snapshot_data\<close>. \<^verbatim>\<open>name\<close> and \<^verbatim>\<open>status\<close> hold whatever
  \<^verbatim>\<open>proc.info\<close> held, which may be Python's \<^verbatim>\<open>None\<close>.
\<close>

record sample =
  pid :: int
  ppid :: "int option"
  name :: "string option"
  status :: "string option"
  cpu_percent :: real
  mem_ws_kb :: int
  delta_read_bytes :: int
  delta_write_bytes :: int

text \<open>The dictionary returned by \<^verbatim>\<open>log_process_tree\<close>.\<close>

record totals =
  cpu :: real
  ws_kb :: int
  sum_delta_read_bytes :: int
  sum_delta_write_bytes :: int
  error_count :: int

text \<open>
  One line written to the snapshot file, kept as its columns: the indentation, the name
  column (already truncated and padded), the pid and the status. The CPU, memory and disk
  columns are float formatting of the totals; the line carries the totals themselves
  (\<open>None\<close> where the program prints \<^verbatim>\<open>-\<close>).
\<close>

record rendered_line =
  ln_indent :: string
  ln_name_field :: string
  ln_pid :: int
  ln_status :: string
  ln_totals :: "totals option"

datatype py_error = TypeError

type_synonym snapshot = "(int \<times> sample) list"

section \<open>String helpers\<close>

definition INDENT_STRING :: string where
  "INDENT_STRING = ''  ''"

definition digit_char :: "nat \<Rightarrow> char" where
  "digit_char d = char_of (48 + d)"

fun str_nat :: "nat \<Rightarrow> string" where
  "str_nat n = (if n < 10 then [digit_char n] else str_nat (n div 10) @ [digit_char (n mod 10)])"

declare str_nat.simps [simp del]

text \<open>Python's \<^verbatim>\<open>str(i)\<close> on an integer.\<close>

definition py_str :: "int \<Rightarrow> string" where
  "py_str i = (if i < 0 then CHR ''-'' # str_nat (nat (- i)) else str_nat (nat i))"

text \<open>The format specification \<^verbatim>\<open>:<n\<close>: pad with spaces on the right, never cut.\<close>

definition ljust :: "int \<Rightarrow> string \<Rightarrow> string" where
  "ljust n s = s @ replicate (nat (n - int (length s))) CHR '' ''"

text \<open>
  The slice \<^verbatim>\<open>s[:k]\<close>. A negative \<open>k\<close> counts from the end of the string in Python,
  so the width handed to the slice matters.
\<close>

definition py_slice_to :: "string \<Rightarrow> int \<Rightarrow> string" where
  "py_slice_to s k = (if k < 0 then take (nat (int (length s) + k)) s else take (nat k) s)"

section \<open>The recursive subtree aggregation\<close>

text \<open>\<^verbatim>\<open>name_field_length = max(1, 45 - len(indent))\<close>\<close>

definition name_field_length :: "string \<Rightarrow> int" where
  "name_field_length indent = max 1 (45 - int (length indent))"

text \<open>
  The truncation decision of \<^verbatim>\<open>log_process_tree\<close>: the width handed to the slice and the
  suffix appended after it, or \<open>None\<close> when the name is kept as it is.
\<close>

definition slice_width :: "string \<Rightarrow> int \<Rightarrow> (int \<times> string) option" where
  "slice_width display_name n =
     (if int (length display_name) > n \<and> n > 3 then Some (n - 3, ''...'')
      else if int (length display_name) > n then Some (n, [])
      else None)"

definition truncate_name :: "string \<Rightarrow> int \<Rightarrow> string" where
  "truncate_name display_name n =
     (case slice_width display_name n of
        Some (k, suffix) \<Rightarrow> py_slice_to display_name k @ suffix
      | None \<Rightarrow> display_name)"

text \<open>The status strings that \<^verbatim>\<open>log_process_tree\<close> counts as an error of the node itself.\<close>

definition error_statuses :: "string list" where
  "error_statuses =
     [''access denied'', ''error'', ''fetch error'', ''cpu error'', ''mem error'', ''io error'']"

definition is_error_status :: "string option \<Rightarrow> bool" where
  "is_error_status st = (case st of None \<Rightarrow> False | Some s \<Rightarrow> s \<in> set error_statuses)"

definition zero_totals :: totals where
  "zero_totals = \<lparr>cpu = 0, ws_kb = 0, sum_delta_read_bytes = 0, sum_delta_write_bytes = 0,
     error_count = 0\<rparr>"

text \<open>The five \<^verbatim>\<open>children_total[...] += child_sum[...]\<close> statements.\<close>

definition add_totals :: "totals \<Rightarrow> totals \<Rightarrow> totals" where
  "add_totals acc t =
     \<lparr>cpu = cpu acc + cpu t, ws_kb = ws_kb acc + ws_kb t,
      sum_delta_read_bytes = sum_delta_read_bytes acc + sum_delta_read_bytes t,
      sum_delta_write_bytes = sum_delta_write_bytes acc + sum_delta_write_bytes t,
      error_count = error_count acc + error_count t\<rparr>"

text \<open>\<^verbatim>\<open>total_for_node\<close>: the node's own metrics plus the children's total.\<close>

definition total_for_node :: "sample \<Rightarrow> totals \<Rightarrow> totals" where
  "total_for_node process_data children_total =
     \<lparr>cpu = cpu_percent process_data + cpu children_total,
      ws_kb = mem_ws_kb process_data + ws_kb children_total,
      sum_delta_read_bytes = delta_read_bytes process_data + sum_delta_read_bytes children_total,
      sum_delta_write_bytes = delta_write_bytes process_data + sum_delta_write_bytes children_total,
      error_count = (if is_error_status (status process_data) then 1 else 0)
                    + error_count children_total\<rparr>"

text \<open>The line and the totals returned when the pid is not in \<^verbatim>\<open>current_snapshot_data\<close>.\<close>

definition missing_line :: "string \<Rightarrow> int \<Rightarrow> rendered_line" where
  "missing_line indent p =
     \<lparr>ln_indent = indent,
      ln_name_field = ljust (name_field_length indent) (''PID '' @ py_str p),
      ln_pid = p, ln_status = ''Terminated/Missing'', ln_totals = None\<rparr>"

definition missing_totals :: totals where
  "missing_totals = \<lparr>cpu = 0, ws_kb = 0, sum_delta_read_bytes = 0, sum_delta_write_bytes = 0,
     error_count = 1\<rparr>"

text \<open>
  Formatting the line of a node that is in the snapshot. \<^verbatim>\<open>len(None)\<close>,
  \<^verbatim>\<open>None += str\<close> and formatting \<^verbatim>\<open>None\<close> with a width raise \<^verbatim>\<open>TypeError\<close>; nothing in
  \<^verbatim>\<open>log_process_tree\<close> catches it.
\<close>

definition render_line ::
  "string \<Rightarrow> int \<Rightarrow> sample \<Rightarrow> nat \<Rightarrow> totals \<Rightarrow> py_error + rendered_line" where
  "render_line indent p process_data n_valid node_total =
     (case name process_data of
        None \<Rightarrow> Inl TypeError
      | Some process_name \<Rightarrow>
          (let display_name =
                 (if n_valid > 0 then process_name @ '' ('' @ str_nat n_valid @ '')''
                  else process_name);
               truncated_display_name = truncate_name display_name (name_field_length indent)
           in case status process_data of
                None \<Rightarrow> Inl TypeError
              | Some status_display \<Rightarrow>
                  Inr \<lparr>ln_indent = indent,
                       ln_name_field = ljust (name_field_length indent) truncated_display_name,
                       ln_pid = p, ln_status = status_display, ln_totals = Some node_total\<rparr>))"

text \<open>
  The result of a walk: the lines written so far and either the totals or the exception
  that ended the walk. \<open>None\<close> stands for a walk that has not returned within the fuel.
\<close>

type_synonym walk = "rendered_line list \<times> (py_error + totals)"

text \<open>The \<^verbatim>\<open>for child_pid in sorted_children_pids\<close> loop, over any recursive call \<open>rec\<close>.\<close>

fun sum_children ::
  "(int \<Rightarrow> walk option) \<Rightarrow> int list \<Rightarrow> totals \<Rightarrow> walk option" where
  "sum_children rec [] acc = Some ([], Inr acc)"
| "sum_children rec (c # cs) acc =
     (case rec c of
        None \<Rightarrow> None
      | Some (ls, Inl e) \<Rightarrow> Some (ls, Inl e)
      | Some (ls, Inr child_sum) \<Rightarrow>
          (case sum_children rec cs (add_totals acc child_sum) of
             None \<Rightarrow> None
           | Some (ls', r) \<Rightarrow> Some (ls @ ls', r)))"

text \<open>
  \<^verbatim>\<open>valid_children_pids\<close>: the children recorded for the pid that are keys of the snapshot.
\<close>

definition valid_children_pids :: "snapshot \<Rightarrow> (int \<Rightarrow> int list) \<Rightarrow> int \<Rightarrow> int list" where
  "valid_children_pids snap children_map p =
     filter (\<lambda>c. c \<in> fst ` set snap) (children_map p)"

text \<open>
  \<^verbatim>\<open>log_process_tree(pid, children_map, ..., indent)\<close>, reading the global
  \<^verbatim>\<open>current_snapshot_data\<close> (\<open>snap\<close>). Python recurses without a bound; the first argument
  is fuel, and \<open>None\<close> means that the fuel ran out. The parameters \<^verbatim>\<open>cpu_cores\<close> (unused in
  the source) and \<^verbatim>\<open>interval_duration\<close> (used only to format the disk column) are left
  out. The children's lines are written before the node's own line. The interpreter's
  recursion limit is not modelled.
\<close>

fun log_process_tree ::
  "nat \<Rightarrow> snapshot \<Rightarrow> (int \<Rightarrow> int list) \<Rightarrow> int \<Rightarrow> string \<Rightarrow> walk option" where
  "log_process_tree 0 snap children_map p indent = None"
| "log_process_tree (Suc k) snap children_map p indent =
     (case map_of snap p of
        None \<Rightarrow> Some ([missing_line indent p], Inr missing_totals)
      | Some process_data \<Rightarrow>
          (case sum_children
                  (\<lambda>c. log_process_tree k snap children_map c (indent @ INDENT_STRING))
                  (sort (valid_children_pids snap children_map p)) zero_totals of
             None \<Rightarrow> None
           | Some (ls, Inl e) \<Rightarrow> Some (ls, Inl e)
           | Some (ls, Inr children_total) \<Rightarrow>
               (case render_line indent p process_data
                       (length (valid_children_pids snap children_map p))
                       (total_for_node process_data children_total) of
                  Inl e \<Rightarrow> Some (ls, Inl e)
                | Inr line \<Rightarrow>
                    Some (ls @ [line], Inr (total_for_node process_data children_total)))))"

section \<open>The forest builder\<close>

text \<open>
  Step 3 of the main loop: one pass over \<^verbatim>\<open>current_snapshot_data.items()\<close> fills
  \<^verbatim>\<open>children_map\<close> (a \<^verbatim>\<open>defaultdict(list)\<close>, here a function with default \<open>[]\<close>) and the
  set \<^verbatim>\<open>root_candidates\<close> (here a list without repetitions).
\<close>

record forest =
  children_map :: "int \<Rightarrow> int list"
  root_candidates :: "int list"

definition set_add :: "int \<Rightarrow> int list \<Rightarrow> int list" where
  "set_add x xs = (if x \<in> set xs then xs else xs @ [x])"

text \<open>\<^verbatim>\<open>ppid is not None and ppid != 0 and ppid in all_pids_in_snapshot\<close>\<close>

definition is_live_parent :: "int set \<Rightarrow> int option \<Rightarrow> bool" where
  "is_live_parent all_pids pp = (case pp of None \<Rightarrow> False | Some q \<Rightarrow> q \<noteq> 0 \<and> q \<in> all_pids)"

text \<open>\<^verbatim>\<open>ppid is None or ppid == 0 or ppid not in all_pids_in_snapshot\<close>\<close>

definition is_root_parent :: "int set \<Rightarrow> int option \<Rightarrow> bool" where
  "is_root_parent all_pids pp = (case pp of None \<Rightarrow> True | Some q \<Rightarrow> q = 0 \<or> q \<notin> all_pids)"

fun build_forest_loop :: "int set \<Rightarrow> snapshot \<Rightarrow> forest \<Rightarrow> forest" where
  "build_forest_loop all_pids [] f = f"
| "build_forest_loop all_pids ((p, data) # rest) f =
     (let f1 = (if is_live_parent all_pids (ppid data)
                then f\<lparr>children_map := (children_map f)
                          (the (ppid data) := children_map f (the (ppid data)) @ [p])\<rparr>
                else f);
          f2 = (if is_root_parent all_pids (ppid data)
                then f1\<lparr>root_candidates := set_add p (root_candidates f1)\<rparr>
                else f1)
      in build_forest_loop all_pids rest f2)"

definition build_forest :: "snapshot \<Rightarrow> forest" where
  "build_forest snap =
     build_forest_loop (fst ` set snap) snap \<lparr>children_map = (\<lambda>_. []), root_candidates = []\<rparr>"

text \<open>Without a name filter: \<^verbatim>\<open>root_pids_to_log = sorted(list(root_candidates))\<close>.\<close>

definition root_pids_to_log :: "snapshot \<Rightarrow> int list" where
  "root_pids_to_log snap = sort (root_candidates (build_forest snap))"

section \<open>Writing the trees of one snapshot\<close>

definition disappeared_line :: "int \<Rightarrow> rendered_line" where
  "disappeared_line r =
     \<lparr>ln_indent = [], ln_name_field = ljust 45 (''PID '' @ py_str r),
      ln_pid = r, ln_status = ''Disappeared'', ln_totals = None\<rparr>"

text \<open>
  Step 4, the loop \<^verbatim>\<open>for root_pid in root_pids_to_log\<close> with its counter
  \<^verbatim>\<open>total_errors_in_log\<close>. An exception raised inside \<^verbatim>\<open>log_process_tree\<close> leaves the loop.
\<close>

fun log_roots ::
  "nat \<Rightarrow> snapshot \<Rightarrow> (int \<Rightarrow> int list) \<Rightarrow> int list \<Rightarrow> int
     \<Rightarrow> (rendered_line list \<times> (py_error + int)) option" where
  "log_roots fuel snap cm [] total_errors_in_log = Some ([], Inr total_errors_in_log)"
| "log_roots fuel snap cm (root_pid # rest) total_errors_in_log =
     (if root_pid \<in> fst ` set snap then
        (case log_process_tree fuel snap cm root_pid [] of
           None \<Rightarrow> None
         | Some (ls, Inl e) \<Rightarrow> Some (ls, Inl e)
         | Some (ls, Inr subtree_info) \<Rightarrow>
             (case log_roots fuel snap cm rest
                     (total_errors_in_log + error_count subtree_info) of
                None \<Rightarrow> None
              | Some (ls', r) \<Rightarrow> Some (ls @ ls', r)))
      else
        (case log_roots fuel snap cm rest total_errors_in_log of
           None \<Rightarrow> None
         | Some (ls', r) \<Rightarrow> Some (disappeared_line root_pid # ls', r)))"

text \<open>
  Steps 3 and 4 without a name filter: the process lines of the snapshot block (the
  block's caption and the "No processes found" message are not process lines).
\<close>

definition write_snapshot ::
  "nat \<Rightarrow> snapshot \<Rightarrow> (rendered_line list \<times> (py_error + int)) option" where
  "write_snapshot fuel snap =
     log_roots fuel snap (children_map (build_forest snap)) (root_pids_to_log snap) 0"

section \<open>The sampler\<close>

text \<open>
  A value stored under a key of \<^verbatim>\<open>proc.info\<close>: the key may be missing, hold \<^verbatim>\<open>None\<close>
  (psutil's \<^verbatim>\<open>ad_value\<close>) or hold a value. \<open>entry_get\<close> is \<^verbatim>\<open>dict.get(key, default)\<close>.
\<close>

datatype 'a entry = Absent | NoneVal | Val 'a

definition entry_get :: "'a entry \<Rightarrow> 'a \<Rightarrow> 'a option" where
  "entry_get e dflt = (case e of Absent \<Rightarrow> Some dflt | NoneVal \<Rightarrow> None | Val v \<Rightarrow> Some v)"

text \<open>
  \<^verbatim>\<open>proc.info\<close> of one enumerated process. For \<^verbatim>\<open>pid\<close> and \<^verbatim>\<open>ppid\<close> the program only
  uses \<^verbatim>\<open>.get(key)\<close>, so a missing key and \<^verbatim>\<open>None\<close> are the same \<open>None\<close>.
\<close>

record proc_info =
  info_pid :: "int option"
  info_ppid :: "int option"
  info_name :: "string entry"
  info_status :: "string entry"

text \<open>The exception classes that the handlers of the sampler tell apart.\<close>

datatype psutil_exc = NoSuchProcess | AccessDenied | NotImplementedError | OSError | OtherException

text \<open>
  The operating system as the sampler sees it in one cycle: what each collaborator call
  returns or raises for a pid. The priming block calls \<^verbatim>\<open>cpu_percent\<close> and
  \<^verbatim>\<open>io_counters\<close> a second time, later in the cycle, so these have outcomes of their own.
\<close>

record os_env =
  is_running :: "int \<Rightarrow> bool"
  open_process :: "int \<Rightarrow> psutil_exc option"
  cpu_percent_call :: "int \<Rightarrow> psutil_exc + real"
  memory_info_rss :: "int \<Rightarrow> psutil_exc + int"
  io_counters_call :: "int \<Rightarrow> psutil_exc + io_counters"
  prime_cpu_percent :: "int \<Rightarrow> psutil_exc option"
  prime_io_counters :: "int \<Rightarrow> psutil_exc + io_counters"

text \<open>
  The three global dictionaries, and the three variables local to one pass of the main
  loop (\<^verbatim>\<open>current_io_snapshot\<close>, \<^verbatim>\<open>pids_found_this_iter\<close>, \<^verbatim>\<open>newly_cached_pids\<close>), which are
  reset at the start of every pass. \<^verbatim>\<open>process_objects_cache\<close> is kept as its key set.
\<close>

record monitor_state =
  previous_io_counters :: "int \<rightharpoonup> io_counters"
  process_objects_cache :: "int set"
  current_snapshot_data :: snapshot
  current_io_snapshot :: "int \<rightharpoonup> io_counters"
  pids_found_this_iter :: "int set"
  newly_cached_pids :: "int list"

text \<open>\<^verbatim>\<open>status not in [...]\<close>, where the status may be \<^verbatim>\<open>None\<close>.\<close>

definition not_in :: "string option \<Rightarrow> string list \<Rightarrow> bool" where
  "not_in st xs = (case st of None \<Rightarrow> True | Some s \<Rightarrow> s \<notin> set xs)"

text \<open>The entry stored when the process object cannot be obtained.\<close>

definition minimal_entry :: "proc_info \<Rightarrow> int \<Rightarrow> sample" where
  "minimal_entry info p =
     \<lparr>pid = p, ppid = info_ppid info, name = entry_get (info_name info) ''N/A'',
      status = entry_get (info_status info) ''terminated'',
      cpu_percent = 0, mem_ws_kb = 0, delta_read_bytes = 0, delta_write_bytes = 0\<rparr>"

text \<open>\<^verbatim>\<open>name = proc.info.get('name', 'N/A') or 'N/A'\<close>\<close>

definition fetch_name :: "proc_info \<Rightarrow> string" where
  "fetch_name info =
     (case entry_get (info_name info) ''N/A'' of
        None \<Rightarrow> ''N/A''
      | Some s \<Rightarrow> if s = [] then ''N/A'' else s)"

text \<open>The CPU block: the stored share and the status after it.\<close>

definition fetch_cpu :: "os_env \<Rightarrow> int \<Rightarrow> int \<Rightarrow> string option \<Rightarrow> real \<times> string option" where
  "fetch_cpu env cpu_cores p st =
     (case cpu_percent_call env p of
        Inr raw_cpu_total_cores \<Rightarrow>
          (min 100 (if cpu_cores > 0 then raw_cpu_total_cores / real_of_int cpu_cores
                    else raw_cpu_total_cores), st)
      | Inl e \<Rightarrow>
          (0, if not_in st [''terminated'', ''access denied''] then Some ''cpu error'' else st))"

text \<open>The memory block.\<close>

definition fetch_mem :: "os_env \<Rightarrow> int \<Rightarrow> string option \<Rightarrow> int \<times> string option" where
  "fetch_mem env p st =
     (case memory_info_rss env p of
        Inr rss \<Rightarrow> (rss div 1024, st)
      | Inl e \<Rightarrow>
          (0, if not_in st [''terminated'', ''access denied'', ''cpu error'']
              then Some ''mem error'' else st))"

text \<open>
  The disk block: the counters fetched (to be stored in \<^verbatim>\<open>current_io_snapshot\<close>), the two
  deltas and the status after it. The first handler takes \<^verbatim>\<open>NoSuchProcess\<close>,
  \<^verbatim>\<open>AccessDenied\<close>, \<^verbatim>\<open>NotImplementedError\<close> and \<^verbatim>\<open>OSError\<close>, the second any other exception.
\<close>

definition fetch_io ::
  "os_env \<Rightarrow> (int \<rightharpoonup> io_counters) \<Rightarrow> int \<Rightarrow> string option
     \<Rightarrow> io_counters option \<times> int \<times> int \<times> string option" where
  "fetch_io env prev p st =
     (case io_counters_call env p of
        Inr current_io \<Rightarrow>
          (case prev p of
             Some prev_io \<Rightarrow>
               (Some current_io,
                max 0 (read_bytes current_io - read_bytes prev_io),
                max 0 (write_bytes current_io - write_bytes prev_io), st)
           | None \<Rightarrow> (Some current_io, 0, 0, st))
      | Inl e \<Rightarrow>
          (if e = OtherException then
             (None, 0, 0,
              if not_in st [''terminated'', ''access denied'', ''cpu error'', ''mem error'',
                     ''io error'']
              then Some ''fetch error'' else st)
           else
             (None, 0, 0,
              if not_in st [''terminated'', ''access denied'', ''cpu error'', ''mem error'']
              then Some ''io error'' else st)))"

text \<open>
  The body of the loop from "Fetch specific resources" on, for a process whose object is
  at hand: the sample stored under the pid, and the counters (if fetched) stored in
  \<^verbatim>\<open>current_io_snapshot\<close>.
\<close>

definition fetch_details ::
  "os_env \<Rightarrow> int \<Rightarrow> (int \<rightharpoonup> io_counters) \<Rightarrow> proc_info \<Rightarrow> int
     \<Rightarrow> sample \<times> io_counters option" where
  "fetch_details env cpu_cores prev info p =
     (let (cpu_val_per_core, st1) = fetch_cpu env cpu_cores p (entry_get (info_status info) ''N/A'');
          (mem, st2) = fetch_mem env p st1;
          (current_io, read_delta, write_delta, st3) = fetch_io env prev p st2
      in (\<lparr>pid = p, ppid = info_ppid info, name = Some (fetch_name info), status = st3,
           cpu_percent = cpu_val_per_core, mem_ws_kb = mem,
           delta_read_bytes = read_delta, delta_write_bytes = write_delta\<rparr>, current_io))"

definition store_details :: "sample \<times> io_counters option \<Rightarrow> int \<Rightarrow> monitor_state \<Rightarrow> monitor_state" where
  "store_details r p st =
     (let st' = (case snd r of
                   None \<Rightarrow> st
                 | Some current_io \<Rightarrow>
                     st\<lparr>current_io_snapshot := (current_io_snapshot st)(p \<mapsto> current_io)\<rparr>)
      in st'\<lparr>current_snapshot_data := AList.update p (fst r) (current_snapshot_data st')\<rparr>)"

text \<open>
  One pass of \<^verbatim>\<open>for proc in all_processes_this_iter\<close>. The result carries the exception
  that leaves the loop for the outer handler, if any: \<^verbatim>\<open>psutil.Process(pid)\<close> raising
  anything but \<^verbatim>\<open>NoSuchProcess\<close> or \<^verbatim>\<open>AccessDenied\<close>.
\<close>

definition process_proc ::
  "os_env \<Rightarrow> int \<Rightarrow> proc_info option \<Rightarrow> monitor_state \<Rightarrow> psutil_exc option \<times> monitor_state" where
  "process_proc env cpu_cores proc st =
     (case proc of
        None \<Rightarrow> (None, st)
      | Some info \<Rightarrow>
          (case info_pid info of
             None \<Rightarrow> (None, st)
           | Some p \<Rightarrow>
               (let st1 = st\<lparr>pids_found_this_iter := insert p (pids_found_this_iter st)\<rparr>
                in if p \<in> process_objects_cache st1 \<and> is_running env p then
                     (None, store_details
                        (fetch_details env cpu_cores (previous_io_counters st1) info p) p st1)
                   else
                     (case open_process env p of
                        None \<Rightarrow>
                          (let st2 = st1\<lparr>process_objects_cache :=
                                            insert p (process_objects_cache st1),
                                          newly_cached_pids := newly_cached_pids st1 @ [p]\<rparr>
                           in (None, store_details
                                 (fetch_details env cpu_cores (previous_io_counters st2) info p)
                                 p st2))
                      | Some e \<Rightarrow>
                          (if e = NoSuchProcess \<or> e = AccessDenied then
                             (None, st1\<lparr>process_objects_cache := process_objects_cache st1 - {p},
                                     current_snapshot_data :=
                                       AList.update p (minimal_entry info p)
                                         (current_snapshot_data st1)\<rparr>)
                           else (Some e, st1))))))"

fun collect_loop ::
  "os_env \<Rightarrow> int \<Rightarrow> proc_info option list \<Rightarrow> monitor_state
     \<Rightarrow> psutil_exc option \<times> monitor_state" where
  "collect_loop env cpu_cores [] st = (None, st)"
| "collect_loop env cpu_cores (proc # procs) st =
     (case process_proc env cpu_cores proc st of
        (Some e, st') \<Rightarrow> (Some e, st')
      | (None, st') \<Rightarrow> collect_loop env cpu_cores procs st')"

text \<open>The priming block; an exception inside it is swallowed (\<^verbatim>\<open>except Exception: pass\<close>).\<close>

fun prime_loop :: "os_env \<Rightarrow> int list \<Rightarrow> monitor_state \<Rightarrow> monitor_state" where
  "prime_loop env [] st = st"
| "prime_loop env (pid_to_prime # rest) st =
     prime_loop env rest
       (if pid_to_prime \<in> process_objects_cache st then
          (case prime_cpu_percent env pid_to_prime of
             Some e \<Rightarrow> st
           | None \<Rightarrow>
               (case prime_io_counters env pid_to_prime of
                  Inl e \<Rightarrow> st
                | Inr primed_io \<Rightarrow>
                    st\<lparr>previous_io_counters :=
                         (previous_io_counters st)(pid_to_prime \<mapsto> primed_io),
                       current_io_snapshot :=
                         (current_io_snapshot st)(pid_to_prime \<mapsto> primed_io)\<rparr>))
        else st)"

text \<open>
  Steps 1 and 2 of one pass of the main loop, given the list that
  \<^verbatim>\<open>psutil.process_iter\<close> returned. When an exception reaches the outer handler the pass is
  abandoned (\<^verbatim>\<open>continue\<close>) and step 2 does not run.
\<close>

definition collect_phase ::
  "os_env \<Rightarrow> int \<Rightarrow> proc_info option list \<Rightarrow> monitor_state
     \<Rightarrow> psutil_exc option \<times> monitor_state" where
  "collect_phase env cpu_cores all_processes_this_iter st =
     (case collect_loop env cpu_cores all_processes_this_iter
             (st\<lparr>current_snapshot_data := [], current_io_snapshot := Map.empty,
                 pids_found_this_iter := {}, newly_cached_pids := []\<rparr>) of
        (Some e, st1) \<Rightarrow> (Some e, st1)
      | (None, st1) \<Rightarrow>
          (let st2 = prime_loop env (newly_cached_pids st1) st1;
               st3 = st2\<lparr>previous_io_counters := current_io_snapshot st2\<rparr>
           in (None, st3\<lparr>process_objects_cache :=
                            process_objects_cache st3
                            - (process_objects_cache st3 - pids_found_this_iter st3)\<rparr>)))"

section \<open>Scenarios\<close>

text \<open>
  A snapshot used to exercise the theorems below: a root \<open>1\<close> (parent \<open>0\<close>) with the
  children \<open>2\<close> and \<open>3\<close>, a process \<open>7\<close> whose parent \<open>9\<close> is not in the snapshot, and
  two processes \<open>20\<close> and \<open>21\<close> that are each other's parent.
\<close>

definition scenario_sample :: "int \<Rightarrow> int option \<Rightarrow> string \<Rightarrow> real \<Rightarrow> int \<times> sample" where
  "scenario_sample p pp st c =
     (p, \<lparr>pid = p, ppid = pp, name = Some ''proc'', status = Some st, cpu_percent = c,
          mem_ws_kb = 10, delta_read_bytes = 1, delta_write_bytes = 2\<rparr>)"

definition scenario_snapshot :: snapshot where
  "scenario_snapshot =
     [scenario_sample 1 (Some 0) ''running'' 100,
      scenario_sample 2 (Some 1) ''cpu error'' 10,
      scenario_sample 3 (Some 1) ''terminated'' 5,
      scenario_sample 7 (Some 9) ''running'' 1,
      scenario_sample 20 (Some 21) ''running'' 1,
      scenario_sample 21 (Some 20) ''running'' 1]"

text \<open>
  One pass of the sampler: pid \<open>5\<close> has a cached object and cached counters, and its read
  counter has gone back from 1000 to 800; for pid \<open>6\<close> \<^verbatim>\<open>psutil.Process\<close> raises
  \<^verbatim>\<open>AccessDenied\<close>; pid \<open>7\<close> is new and its CPU call returns a negative number; for pid
  \<open>8\<close>, new as well, the memory call and then the disk call fail; pid \<open>9\<close> has a cached
  object but no cached counters.
\<close>

definition scenario_env :: os_env where
  "scenario_env =
     \<lparr>is_running = (\<lambda>p. True),
      open_process = (\<lambda>p. if p = 6 then Some AccessDenied else None),
      cpu_percent_call = (\<lambda>p. if p = 7 then Inr (- 8) else Inr 250),
      memory_info_rss = (\<lambda>p. if p = 8 then Inl AccessDenied else Inr 4096000),
      io_counters_call =
        (\<lambda>p. if p = 8 then Inl OtherException
             else if p = 5 then Inr \<lparr>read_bytes = 800, write_bytes = 7000\<rparr>
             else Inr \<lparr>read_bytes = 100, write_bytes = 200\<rparr>),
      prime_cpu_percent = (\<lambda>p. None),
      prime_io_counters = (\<lambda>p. Inr \<lparr>read_bytes = 150, write_bytes = 250\<rparr>)\<rparr>"

definition scenario_info :: "int \<Rightarrow> proc_info" where
  "scenario_info p =
     \<lparr>info_pid = Some p, info_ppid = Some 1, info_name = Val ''app'',
      info_status = Val ''running''\<rparr>"

definition scenario_procs :: "proc_info option list" where
  "scenario_procs = map (\<lambda>p. Some (scenario_info p)) [5, 6, 7, 8, 9]"

definition scenario_state :: monitor_state where
  "scenario_state =
     \<lparr>previous_io_counters = [5 \<mapsto> \<lparr>read_bytes = 1000, write_bytes = 5000\<rparr>],
      process_objects_cache = {5, 9},
      current_snapshot_data = [], current_io_snapshot = Map.empty,
      pids_found_this_iter = {}, newly_cached_pids = []\<rparr>"



definition abandoned_env :: os_env where
  "abandoned_env =
     scenario_env\<lparr>open_process := (\<lambda>p. if p = 7 then Some OSError else open_process scenario_env p)\<rparr>"

definition abandoned_procs :: "proc_info option list" where
  "abandoned_procs = map (\<lambda>p. Some (scenario_info p)) [6, 7]"

definition cpu_fail_env :: os_env where
  "cpu_fail_env =
     scenario_env\<lparr>cpu_percent_call :=
       (\<lambda>p. if p = 9 then Inl AccessDenied else cpu_percent_call scenario_env p)\<rparr>"

text \<open>
  Snapshots with parent links through the sentinel \<open>0\<close>: a process \<open>0\<close> that is its own
  parent (the idle or kernel task), and the processes \<open>0\<close> and \<open>5\<close> that are each other's
  parent.
\<close>

definition idle_snapshot :: snapshot where
  "idle_snapshot = [scenario_sample 0 (Some 0) ''running'' 1]"

definition zero_cycle_snapshot :: snapshot where
  "zero_cycle_snapshot =
     [scenario_sample 0 (Some 5) ''running'' 1, scenario_sample 5 (Some 0) ''running'' 1]"

section \<open>Parent links, depth and subtrees\<close>

text \<open>
  The notions the properties of the forest are stated with. \<open>live_parent\<close> is the parent
  link that the forest builder follows: the declared parent when it is present, not the
  sentinel \<open>0\<close> and itself a key of the snapshot.
\<close>

definition live_parent :: "snapshot \<Rightarrow> int \<Rightarrow> int option" where
  "live_parent snap c =
     (case map_of snap c of
        None \<Rightarrow> None
      | Some data \<Rightarrow> if is_live_parent (fst ` set snap) (ppid data) then ppid data else None)"

text \<open>Following the live parent links \<open>j\<close> times upwards.\<close>

fun climb :: "snapshot \<Rightarrow> nat \<Rightarrow> int \<Rightarrow> int option" where
  "climb snap 0 c = Some c"
| "climb snap (Suc j) c = (case live_parent snap c of None \<Rightarrow> None | Some q \<Rightarrow> climb snap j q)"

text \<open>A node at depth \<open>d\<close> reaches, after \<open>d\<close> links, a node without live parent.\<close>

definition at_depth :: "snapshot \<Rightarrow> nat \<Rightarrow> int \<Rightarrow> bool" where
  "at_depth snap d n = (\<exists>r. climb snap d n = Some r \<and> live_parent snap r = None)"

text \<open>
  A member of a cycle of live parent links comes back to itself after one link or more.
  Every link of such a cycle goes to a declared parent that is not the sentinel \<open>0\<close> and
  is a key of the snapshot.
\<close>

definition on_cycle :: "snapshot \<Rightarrow> int \<Rightarrow> bool" where
  "on_cycle snap n = (\<exists>j. climb snap (Suc j) n = Some n)"

text \<open>
  The subtree of \<open>r\<close> in a children index: what the recursive walk can reach from \<open>r\<close>,
  descending only from keys of the snapshot into their valid children.
\<close>

inductive_set subtree :: "snapshot \<Rightarrow> (int \<Rightarrow> int list) \<Rightarrow> int \<Rightarrow> int set"
  for snap :: snapshot and cm :: "int \<Rightarrow> int list" and r :: int where
  subtree_root: "r \<in> subtree snap cm r"
| subtree_child: "n \<in> subtree snap cm r \<Longrightarrow> n \<in> fst ` set snap
     \<Longrightarrow> c \<in> set (valid_children_pids snap cm n) \<Longrightarrow> c \<in> subtree snap cm r"

text \<open>
  What \<^verbatim>\<open>log_process_tree\<close> counts as an error of a node itself: a pid that is not in the
  snapshot, or a sample whose status is one of the six strings of \<open>error_statuses\<close>.
\<close>

definition node_error :: "snapshot \<Rightarrow> int \<Rightarrow> bool" where
  "node_error snap n =
     (case map_of snap n of None \<Rightarrow> True | Some data \<Rightarrow> is_error_status (status data))"


section \<open>Notions for the properties of the sampler\<close>

text \<open>
  \<^verbatim>\<open>psutil.process_iter\<close> yields every pid once; the theorems about a pass assume that the
  enumerated pids are distinct.
\<close>

text \<open>
  How the block that obtains the process object ends: the cached object is reused,
  a new one is created (and cached, and listed for priming), \<^verbatim>\<open>psutil.Process\<close> raises
  \<^verbatim>\<open>NoSuchProcess\<close> or \<^verbatim>\<open>AccessDenied\<close> (a minimal entry is stored), or it raises something
  else, which abandons the pass.
\<close>

datatype handle = Reused | Fresh | Lost | Crashed

definition acquire :: "os_env \<Rightarrow> bool \<Rightarrow> int \<Rightarrow> handle" where
  "acquire env in_cache p =
     (if in_cache \<and> is_running env p then Reused
      else (case open_process env p of
              None \<Rightarrow> Fresh
            | Some e \<Rightarrow> if e = NoSuchProcess \<or> e = AccessDenied then Lost else Crashed))"

text \<open>
  The pid under which an enumerated process is sampled, \<open>None\<close> when the loop skips it.
\<close>

definition pid_of :: "proc_info option \<Rightarrow> int option" where
  "pid_of proc = (case proc of None \<Rightarrow> None | Some info \<Rightarrow> info_pid info)"

text \<open>
  The pids of one enumeration, in order.
\<close>

definition enumerated_pids :: "proc_info option list \<Rightarrow> int list" where
  "enumerated_pids procs = List.map_filter pid_of procs"

text \<open>
  The counters that the disk block fetches, if the call succeeds.
\<close>

definition main_counters :: "os_env \<Rightarrow> int \<Rightarrow> io_counters option" where
  "main_counters env p = (case io_counters_call env p of Inr c \<Rightarrow> Some c | Inl e \<Rightarrow> None)"

text \<open>
  The counters left in \<^verbatim>\<open>current_io_snapshot\<close> for a pid at the end of a pass: those of the
  disk block, overwritten by those of the priming block when the object is new and both
  priming calls succeed.
\<close>

definition cycle_baseline :: "os_env \<Rightarrow> bool \<Rightarrow> int \<Rightarrow> io_counters option" where
  "cycle_baseline env in_cache p =
     (case acquire env in_cache p of
        Reused \<Rightarrow> main_counters env p
      | Fresh \<Rightarrow>
          (case prime_cpu_percent env p of
             Some e \<Rightarrow> main_counters env p
           | None \<Rightarrow>
               (case prime_io_counters env p of
                  Inr primed_io \<Rightarrow> Some primed_io
                | Inl e \<Rightarrow> main_counters env p))
      | Lost \<Rightarrow> None
      | Crashed \<Rightarrow> None)"

text \<open>
  The sample stored for an enumerated process.
\<close>

definition expected_sample ::
  "os_env \<Rightarrow> int \<Rightarrow> (int \<rightharpoonup> io_counters) \<Rightarrow> bool \<Rightarrow> proc_info \<Rightarrow> int \<Rightarrow> sample" where
  "expected_sample env cpu_cores prev in_cache info p =
     (if acquire env in_cache p = Lost then minimal_entry info p
      else fst (fetch_details env cpu_cores prev info p))"

text \<open>
  What the pass keeps about one pid, and how processing that pid changes it.
\<close>

definition view :: "monitor_state \<Rightarrow> int \<Rightarrow> sample option \<times> io_counters option \<times> bool \<times> bool" where
  "view st p = (map_of (current_snapshot_data st) p, current_io_snapshot st p,
                p \<in> process_objects_cache st, p \<in> set (newly_cached_pids st))"

definition expected_view ::
  "os_env \<Rightarrow> int \<Rightarrow> (int \<rightharpoonup> io_counters) \<Rightarrow> proc_info \<Rightarrow> int
     \<Rightarrow> sample option \<times> io_counters option \<times> bool \<times> bool
     \<Rightarrow> sample option \<times> io_counters option \<times> bool \<times> bool" where
  "expected_view env cpu_cores prev info p v =
     (case v of (s0, io0, c0, n0) \<Rightarrow>
        (case acquire env c0 p of
           Reused \<Rightarrow> (Some (fst (fetch_details env cpu_cores prev info p)),
                      (case main_counters env p of Some c \<Rightarrow> Some c | None \<Rightarrow> io0), True, n0)
         | Fresh \<Rightarrow> (Some (fst (fetch_details env cpu_cores prev info p)),
                      (case main_counters env p of Some c \<Rightarrow> Some c | None \<Rightarrow> io0), True, True)
         | Lost \<Rightarrow> (Some (minimal_entry info p), io0, False, n0)
         | Crashed \<Rightarrow> v))"

text \<open>
  The counters fetched by the priming block, if both of its calls succeed.
\<close>

definition primed :: "os_env \<Rightarrow> int \<Rightarrow> io_counters option" where
  "primed env p =
     (case prime_cpu_percent env p of
        Some e \<Rightarrow> None
      | None \<Rightarrow> (case prime_io_counters env p of Inr c \<Rightarrow> Some c | Inl e \<Rightarrow> None))"

text \<open>
  The category of the earliest fetch that fails, in the order of the source: CPU,
  memory, disk (\<^verbatim>\<open>io error\<close> for the first handler, \<^verbatim>\<open>fetch error\<close> for the second).
\<close>

definition first_failure :: "os_env \<Rightarrow> int \<Rightarrow> string option" where
  "first_failure env p =
     (case cpu_percent_call env p of
        Inl e \<Rightarrow> Some ''cpu error''
      | Inr raw \<Rightarrow>
          (case memory_info_rss env p of
             Inl e \<Rightarrow> Some ''mem error''
           | Inr rss \<Rightarrow>
               (case io_counters_call env p of
                  Inl e \<Rightarrow> if e = OtherException then Some ''fetch error'' else Some ''io error''
                | Inr c \<Rightarrow> None)))"

section \<open>The forest builder: roots and children\<close>

lemma is_root_parent_iff: "is_root_parent A pp = (\<not> is_live_parent A pp)"
  by (auto simp: is_root_parent_def is_live_parent_def split: option.splits)

lemma is_root_parent_alt:
  "is_root_parent A pp = (pp = None \<or> pp = Some 0 \<or> (\<exists>q. pp = Some q \<and> q \<notin> A))"
  by (cases pp) (auto simp: is_root_parent_def)

lemma children_map_loop:
  "children_map (build_forest_loop A items f) q =
     children_map f q @ map fst (filter (\<lambda>(p, d). is_live_parent A (ppid d) \<and> ppid d = Some q) items)"
proof (induction items arbitrary: f)
  case Nil
  then show ?case by simp
next
  case (Cons a items)
  obtain p d where a: "a = (p, d)" by (cases a)
  show ?case
    unfolding a by (auto simp: Cons.IH Let_def is_live_parent_def split: option.splits)
qed

lemma root_candidates_loop:
  "set (root_candidates (build_forest_loop A items f)) =
     set (root_candidates f) \<union> {p. \<exists>d. (p, d) \<in> set items \<and> is_root_parent A (ppid d)}"
proof (induction items arbitrary: f)
  case Nil
  then show ?case by simp
next
  case (Cons a items)
  obtain p d where a: "a = (p, d)" by (cases a)
  show ?case
    unfolding a by (auto simp: Cons.IH Let_def set_add_def)
qed

lemma distinct_root_candidates_loop:
  "distinct (root_candidates f) \<Longrightarrow> distinct (root_candidates (build_forest_loop A items f))"
proof (induction items arbitrary: f)
  case Nil
  then show ?case by simp
next
  case (Cons a items)
  obtain p d where a: "a = (p, d)" by (cases a)
  show ?case
    unfolding a using Cons.prems by (auto intro!: Cons.IH simp: Let_def set_add_def)
qed

lemma set_root_candidates:
  "set (root_candidates (build_forest snap)) =
     {p. \<exists>d. (p, d) \<in> set snap \<and> is_root_parent (fst ` set snap) (ppid d)}"
  by (simp add: build_forest_def root_candidates_loop)

text \<open>
  Claim C3. A pid is among the root candidates exactly when the snapshot holds it with a
  declared parent that is \<^verbatim>\<open>None\<close>, the sentinel \<open>0\<close>, or not a key of the snapshot; without a
  name filter the roots whose trees are written are exactly the root candidates, in
  ascending order. So a process whose parent is not in the snapshot is a root of its own
  tree, not dropped.
\<close>

theorem root_classification:
  "(p \<in> set (root_candidates (build_forest snap))) =
     (\<exists>data. (p, data) \<in> set snap \<and>
        (ppid data = None \<or> ppid data = Some 0 \<or>
         (\<exists>q. ppid data = Some q \<and> q \<notin> fst ` set snap)))
   \<and> set (root_pids_to_log snap) = set (root_candidates (build_forest snap))
   \<and> sorted (root_pids_to_log snap) \<and> distinct (root_pids_to_log snap)"
proof -
  have "(p \<in> set (root_candidates (build_forest snap))) =
     (\<exists>data. (p, data) \<in> set snap \<and>
        (ppid data = None \<or> ppid data = Some 0 \<or>
         (\<exists>q. ppid data = Some q \<and> q \<notin> fst ` set snap)))"
    unfolding set_root_candidates is_root_parent_alt by simp
  moreover have "distinct (root_candidates (build_forest snap))"
    unfolding build_forest_def by (rule distinct_root_candidates_loop) simp
  ultimately show ?thesis
    by (simp add: root_pids_to_log_def)
qed

text \<open>The scenario of the specification: process \<open>7\<close> with the absent parent \<open>9\<close>.\<close>

theorem root_classification_witness:
  "7 \<in> set (root_candidates (build_forest scenario_snapshot))
   \<and> 7 \<in> set (root_pids_to_log scenario_snapshot)
   \<and> map (\<lambda>l. (ln_pid l, ln_indent l)) (fst (the (write_snapshot 3 scenario_snapshot)))
       = [(2, ''  ''), (3, ''  ''), (1, []), (7, [])]"
proof -
  have top: "map (\<lambda>l. (ln_pid l, ln_indent l)) (fst (the (write_snapshot 3 scenario_snapshot)))
       = [(2, ''  ''), (3, ''  ''), (1, []), (7, [])]"
    by code_simp
  let ?d = "snd (scenario_sample 7 (Some 9) ''running'' 1)"
  have "(7, ?d) \<in> set scenario_snapshot \<and> ppid ?d = Some 9 \<and> 9 \<notin> fst ` set scenario_snapshot"
    by (simp add: scenario_snapshot_def scenario_sample_def)
  then have "7 \<in> set (root_candidates (build_forest scenario_snapshot))"
    using root_classification[of 7 scenario_snapshot] by blast
  then show ?thesis
    using root_classification[of 7 scenario_snapshot] top by simp
qed

lemma children_map_build:
  assumes "distinct (map fst snap)"
  shows "children_map (build_forest snap) q = filter (\<lambda>c. live_parent snap c = Some q) (map fst snap)"
proof -
  have *: "\<And>p d. (p, d) \<in> set snap \<Longrightarrow> map_of snap p = Some d"
    using assms by simp
  have "map fst (filter (\<lambda>(p, d). is_live_parent (fst ` set snap) (ppid d) \<and> ppid d = Some q) snap)
      = filter (\<lambda>c. live_parent snap c = Some q) (map fst snap)"
    unfolding filter_map comp_def
    by (rule arg_cong[where f = "map fst"], rule filter_cong)
       (auto simp: live_parent_def * split: option.splits)
  then show ?thesis
    by (simp add: build_forest_def children_map_loop)
qed

section \<open>Depth, termination of the walk and parent-link cycles\<close>

lemma climb_add:
  "climb snap (a + b) n = (case climb snap a n of None \<Rightarrow> None | Some m \<Rightarrow> climb snap b m)"
  by (induction a arbitrary: n) (auto split: option.splits)

lemma climb_root_None: "live_parent snap r = None \<Longrightarrow> climb snap (Suc j) r = None"
  by simp

lemma live_parent_keys:
  assumes "live_parent snap c = Some q"
  shows "c \<in> fst ` set snap" and "q \<in> fst ` set snap" and "q \<noteq> 0"
  using assms
  by (auto simp: live_parent_def is_live_parent_def split: option.splits if_splits
           dest!: map_of_SomeD intro: rev_image_eqI)

lemma live_parent_absent: "c \<notin> fst ` set snap \<Longrightarrow> live_parent snap c = None"
  using live_parent_keys(1) by (cases "live_parent snap c") auto

lemma mem_children_map:
  assumes "distinct (map fst snap)"
  shows "(c \<in> set (children_map (build_forest snap) q)) = (live_parent snap c = Some q)"
  using live_parent_keys(1)[of snap c q] by (auto simp: children_map_build[OF assms])

lemma valid_children_build:
  assumes "distinct (map fst snap)"
  shows "valid_children_pids snap (children_map (build_forest snap)) q
           = children_map (build_forest snap) q"
  unfolding valid_children_pids_def
  by (rule filter_True) (auto simp: mem_children_map[OF assms] dest: live_parent_keys(1))

lemma distinct_children_map:
  assumes "distinct (map fst snap)"
  shows "distinct (children_map (build_forest snap) q)"
  by (simp add: children_map_build[OF assms] assms)

lemma at_depth_later_None:
  assumes "at_depth snap d n" and "d < d'"
  shows "climb snap d' n = None"
proof -
  obtain t where t: "d' = d + Suc t" using assms(2) less_iff_Suc_add by auto
  from assms(1) obtain r where "climb snap d n = Some r" "live_parent snap r = None"
    by (auto simp: at_depth_def)
  then show ?thesis unfolding t climb_add by simp
qed

lemma depth_unique:
  assumes "at_depth snap d n" and "at_depth snap d' n"
  shows "d = d'"
proof (rule ccontr)
  assume "d \<noteq> d'"
  then consider "d < d'" | "d' < d" by linarith
  then show False
  proof cases
    case 1
    from at_depth_later_None[OF assms(1) 1] assms(2) show False by (simp add: at_depth_def)
  next
    case 2
    from at_depth_later_None[OF assms(2) 2] assms(1) show False by (simp add: at_depth_def)
  qed
qed

lemma at_depth_climb:
  assumes "climb snap j m = Some n" and "at_depth snap d n"
  shows "at_depth snap (j + d) m"
  using assms by (auto simp: at_depth_def climb_add)

lemma at_depth_child:
  assumes "live_parent snap c = Some n" and "at_depth snap d n"
  shows "at_depth snap (Suc d) c"
  using assms by (auto simp: at_depth_def)

lemma at_depth_prefix:
  assumes "at_depth snap d n" and "i \<le> d"
  shows "\<exists>x. climb snap i n = Some x \<and> at_depth snap (d - i) x"
proof -
  have d: "d = i + (d - i)" using assms(2) by simp
  from assms(1) obtain r where r: "climb snap (i + (d - i)) n = Some r" "live_parent snap r = None"
    unfolding at_depth_def using d by metis
  then show ?thesis
    unfolding climb_add at_depth_def by (cases "climb snap i n") auto
qed

lemma climb_in_keys:
  assumes "climb snap i n = Some x" and "n \<in> fst ` set snap"
  shows "x \<in> fst ` set snap"
  using assms
proof (induction i arbitrary: n)
  case 0
  then show ?case by simp
next
  case (Suc i)
  from Suc.prems(1) obtain q where q: "live_parent snap n = Some q" "climb snap i q = Some x"
    by (auto split: option.splits)
  from q(1) have "q \<in> fst ` set snap" by (rule live_parent_keys(2))
  with q(2) show ?case by (rule Suc.IH)
qed

lemma depth_bound:
  assumes "at_depth snap d n" and "n \<in> fst ` set snap"
  shows "d < length snap"
proof -
  define f where "f i = the (climb snap i n)" for i
  have some: "climb snap i n = Some (f i) \<and> at_depth snap (d - i) (f i)" if "i \<le> d" for i
  proof -
    from at_depth_prefix[OF assms(1) that] obtain x
      where "climb snap i n = Some x" "at_depth snap (d - i) x" by blast
    then show ?thesis by (simp add: f_def)
  qed
  have inj: "inj_on f {..d}"
  proof (rule inj_onI)
    fix i j assume ij: "i \<in> {..d}" "j \<in> {..d}" "f i = f j"
    have "at_depth snap (d - i) (f i)" using some[of i] ij(1) by simp
    moreover have "at_depth snap (d - j) (f i)" using some[of j] ij(2,3) by simp
    ultimately have "at_depth snap (d - i) (f i)" "at_depth snap (d - j) (f i)" by blast+
    then have "d - i = d - j" by (rule depth_unique)
    with ij show "i = j" by simp
  qed
  have "f ` {..d} \<subseteq> fst ` set snap"
    using some climb_in_keys[OF _ assms(2)] by blast
  then have "card (f ` {..d}) \<le> card (fst ` set snap)"
    by (intro card_mono) auto
  also have "\<dots> \<le> length snap"
    by (metis card_length length_map set_map)
  finally show ?thesis
    by (simp add: card_image[OF inj])
qed

lemma sum_children_not_None:
  "(\<And>c. c \<in> set cs \<Longrightarrow> rec c \<noteq> None) \<Longrightarrow> sum_children rec cs acc \<noteq> None"
proof (induction cs arbitrary: acc)
  case Nil
  then show ?case by simp
next
  case (Cons c cs)
  from Cons.prems obtain ls r where c: "rec c = Some (ls, r)" by fastforce
  show ?case
  proof (cases r)
    case (Inl e)
    with c show ?thesis by simp
  next
    case (Inr t)
    have "sum_children rec cs (add_totals acc t) \<noteq> None"
      by (rule Cons.IH) (simp add: Cons.prems)
    with c Inr show ?thesis by auto
  qed
qed

lemma log_process_tree_returns:
  assumes dist: "distinct (map fst snap)"
  shows "at_depth snap d n \<Longrightarrow> length snap - d < k
     \<Longrightarrow> log_process_tree k snap (children_map (build_forest snap)) n indent \<noteq> None"
proof (induction k arbitrary: d n indent)
  case 0
  then show ?case by simp
next
  case (Suc k)
  show ?case
  proof (cases "map_of snap n")
    case None
    then show ?thesis by simp
  next
    case (Some data)
    have child: "log_process_tree k snap (children_map (build_forest snap)) c ind' \<noteq> None"
      if "c \<in> set (sort (valid_children_pids snap (children_map (build_forest snap)) n))"
      for c ind'
    proof -
      from that have lp: "live_parent snap c = Some n"
        by (simp add: valid_children_build[OF dist] mem_children_map[OF dist])
      then have dc: "at_depth snap (Suc d) c" using Suc.prems(1) by (rule at_depth_child)
      have "Suc d < length snap"
        using depth_bound[OF dc] live_parent_keys(1)[OF lp] by simp
      then have "length snap - Suc d < k" using Suc.prems(2) by linarith
      with dc show ?thesis by (rule Suc.IH)
    qed
    have "sum_children
            (\<lambda>c. log_process_tree k snap (children_map (build_forest snap)) c (indent @ INDENT_STRING))
            (sort (valid_children_pids snap (children_map (build_forest snap)) n)) zero_totals \<noteq> None"
      by (rule sum_children_not_None) (rule child)
    then show ?thesis
      using Some by (auto split: option.splits sum.splits prod.splits)
  qed
qed

lemma subtree_trans:
  assumes "n \<in> subtree snap cm c" and "c \<in> subtree snap cm r"
  shows "n \<in> subtree snap cm r"
  using assms(1)
proof (induction rule: subtree.induct)
  case subtree_root
  then show ?case by (rule assms(2))
next
  case (subtree_child n c')
  then show ?case by (blast intro: subtree.subtree_child)
qed

lemma subtree_of_child:
  assumes "p \<in> fst ` set snap" and "c \<in> set (valid_children_pids snap cm p)"
    and "n \<in> subtree snap cm c"
  shows "n \<in> subtree snap cm p"
  by (rule subtree_trans[OF assms(3)])
     (rule subtree.subtree_child[OF subtree.subtree_root assms(1,2)])

lemma subtree_cases:
  assumes "n \<in> subtree snap cm p"
  shows "n = p \<or> (p \<in> fst ` set snap \<and>
           (\<exists>c \<in> set (valid_children_pids snap cm p). n \<in> subtree snap cm c))"
  using assms
proof (induction rule: subtree.induct)
  case subtree_root
  then show ?case by simp
next
  case (subtree_child n c)
  from subtree_child.IH show ?case
  proof
    assume "n = p"
    with subtree_child.hyps show ?thesis
      by (auto intro: subtree.subtree_root)
  next
    assume "p \<in> fst ` set snap \<and> (\<exists>c \<in> set (valid_children_pids snap cm p). n \<in> subtree snap cm c)"
    then obtain c' where "p \<in> fst ` set snap" "c' \<in> set (valid_children_pids snap cm p)"
      "n \<in> subtree snap cm c'" by blast
    with subtree_child.hyps show ?thesis
      by (blast intro: subtree.subtree_child)
  qed
qed

lemma subtree_climb:
  assumes dist: "distinct (map fst snap)"
  shows "(n \<in> subtree snap (children_map (build_forest snap)) r) = (\<exists>j. climb snap j n = Some r)"
proof
  assume "n \<in> subtree snap (children_map (build_forest snap)) r"
  then show "\<exists>j. climb snap j n = Some r"
  proof (induction rule: subtree.induct)
    case subtree_root
    have "climb snap 0 r = Some r" by simp
    then show ?case by blast
  next
    case (subtree_child n c)
    then obtain j where j: "climb snap j n = Some r" by blast
    from subtree_child.hyps(3) have "live_parent snap c = Some n"
      by (simp add: valid_children_build[OF dist] mem_children_map[OF dist])
    with j have "climb snap (Suc j) c = Some r" by simp
    then show ?case by blast
  qed
next
  assume "\<exists>j. climb snap j n = Some r"
  then obtain j where "climb snap j n = Some r" by blast
  then show "n \<in> subtree snap (children_map (build_forest snap)) r"
  proof (induction j arbitrary: n)
    case 0
    then show ?case by (simp add: subtree.subtree_root)
  next
    case (Suc j)
    then obtain q where q: "live_parent snap n = Some q" "climb snap j q = Some r"
      by (auto split: option.splits)
    from q(2) have qr: "q \<in> subtree snap (children_map (build_forest snap)) r" by (rule Suc.IH)
    have "n \<in> set (valid_children_pids snap (children_map (build_forest snap)) q)"
      using q(1) by (simp add: valid_children_build[OF dist] mem_children_map[OF dist])
    with qr live_parent_keys(2)[OF q(1)] show ?case
      by (rule subtree.subtree_child)
  qed
qed

lemma cycle_power:
  assumes "climb snap (Suc j) n = Some n"
  shows "climb snap (m * Suc j) n = Some n"
proof (induction m)
  case 0
  then show ?case by simp
next
  case (Suc m)
  have "Suc m * Suc j = m * Suc j + Suc j" by simp
  then show ?case
    using Suc assms by (simp only: climb_add option.case)
qed

lemma cycle_no_depth:
  assumes "on_cycle snap n"
  shows "\<not> at_depth snap d n"
proof
  assume d: "at_depth snap d n"
  from assms obtain j where j: "climb snap (Suc j) n = Some n" by (auto simp: on_cycle_def)
  have "d < Suc d * Suc j" by simp
  from at_depth_later_None[OF d this] cycle_power[OF j, of "Suc d"] show False by simp
qed

lemma cycle_not_under_root:
  assumes "on_cycle snap n" and "live_parent snap r = None"
  shows "climb snap j n \<noteq> Some r"
  using cycle_no_depth[OF assms(1), of j] assms(2) by (auto simp: at_depth_def)

lemma root_candidate_live_parent:
  assumes "distinct (map fst snap)"
  shows "(r \<in> set (root_candidates (build_forest snap)))
           = (r \<in> fst ` set snap \<and> live_parent snap r = None)"
proof -
  have *: "\<And>d. ((r, d) \<in> set snap) = (map_of snap r = Some d)"
    using assms by (auto dest: map_of_SomeD)
  have keys: "(r \<in> fst ` set snap) = (\<exists>d. map_of snap r = Some d)"
    by (metis domIff dom_map_of_conv_image_fst not_Some_eq)
  have lp: "(live_parent snap r = None) = (\<not> is_live_parent (fst ` set snap) (ppid d))"
    if "map_of snap r = Some d" for d
    using that by (cases "ppid d") (auto simp: live_parent_def is_live_parent_def)
  show ?thesis
    unfolding set_root_candidates is_root_parent_iff mem_Collect_eq * keys
    using lp by auto
qed

lemma sum_children_lines:
  "sum_children rec cs acc = Some (ls, r) \<Longrightarrow> l \<in> set ls
     \<Longrightarrow> \<exists>c \<in> set cs. \<exists>ls' r'. rec c = Some (ls', r') \<and> l \<in> set ls'"
proof (induction cs arbitrary: acc ls r)
  case Nil
  then show ?case by simp
next
  case (Cons c cs)
  from Cons.prems(1) obtain ls1 r1 where c: "rec c = Some (ls1, r1)"
    by (auto split: option.splits)
  show ?case
  proof (cases r1)
    case (Inl e)
    with c Cons.prems show ?thesis by auto
  next
    case (Inr t)
    with c Cons.prems(1) obtain ls2 where
      rest: "sum_children rec cs (add_totals acc t) = Some (ls2, r)" and ls: "ls = ls1 @ ls2"
      by (auto split: option.splits)
    from Cons.prems(2) ls consider "l \<in> set ls1" | "l \<in> set ls2" by auto
    then show ?thesis
    proof cases
      case 1
      with c show ?thesis by auto
    next
      case 2
      from Cons.IH[OF rest 2] show ?thesis by auto
    qed
  qed
qed

lemma render_line_pid: "render_line indent p data n t = Inr line \<Longrightarrow> ln_pid line = p"
  by (auto simp: render_line_def Let_def split: option.splits)

lemma log_process_tree_lines_subtree:
  "log_process_tree k snap cm p indent = Some (ls, r) \<Longrightarrow> l \<in> set ls
     \<Longrightarrow> ln_pid l \<in> subtree snap cm p"
proof (induction k arbitrary: p indent ls r l)
  case 0
  then show ?case by simp
next
  case (Suc k)
  show ?case
  proof (cases "map_of snap p")
    case None
    with Suc.prems show ?thesis
      by (auto simp: missing_line_def intro: subtree.subtree_root)
  next
    case (Some data)
    then have pk: "p \<in> fst ` set snap" by (auto dest!: map_of_SomeD intro: rev_image_eqI)
    let ?rec = "\<lambda>c. log_process_tree k snap cm c (indent @ INDENT_STRING)"
    let ?cs = "sort (valid_children_pids snap cm p)"
    from Suc.prems(1) Some obtain ls1 r1 where
      sc: "sum_children ?rec ?cs zero_totals = Some (ls1, r1)"
      by (auto split: option.splits)
    have from_children: "ln_pid l \<in> subtree snap cm p" if "l \<in> set ls1"
    proof -
      from sum_children_lines[OF sc that] obtain c ls' r'
        where c: "c \<in> set ?cs" "?rec c = Some (ls', r')" "l \<in> set ls'" by blast
      from Suc.IH[OF c(2,3)] have "ln_pid l \<in> subtree snap cm c" .
      with pk c(1) show ?thesis by (auto intro: subtree_of_child)
    qed
    have "l \<in> set ls1 \<or> ln_pid l = p"
    proof (cases r1)
      case (Inl e)
      with Suc.prems Some sc show ?thesis by simp
    next
      case (Inr ct)
      show ?thesis
      proof (cases "render_line indent p data (length (valid_children_pids snap cm p))
                      (total_for_node data ct)")
        case (Inl e)
        with Suc.prems Some sc Inr show ?thesis by simp
      next
        case line: (Inr line)
        from render_line_pid[OF line] Suc.prems Some sc Inr line show ?thesis by auto
      qed
    qed
    then show ?thesis
      using from_children by (auto intro: subtree.subtree_root)
  qed
qed

lemma log_roots_lines:
  "log_roots fuel snap cm rs e = Some (ls, res) \<Longrightarrow> l \<in> set ls
     \<Longrightarrow> \<exists>r \<in> set rs. ln_pid l \<in> subtree snap cm r"
proof (induction rs arbitrary: e ls res)
  case Nil
  then show ?case by simp
next
  case (Cons r rs)
  show ?case
  proof (cases "r \<in> fst ` set snap")
    case False
    with Cons.prems(1) obtain ls' where
      rest: "log_roots fuel snap cm rs e = Some (ls', res)" and ls: "ls = disappeared_line r # ls'"
      by (auto split: option.splits)
    from Cons.prems(2) ls consider "l = disappeared_line r" | "l \<in> set ls'" by auto
    then show ?thesis
    proof cases
      case 1
      then show ?thesis by (auto simp: disappeared_line_def intro: subtree.subtree_root)
    next
      case 2
      from Cons.IH[OF rest 2] show ?thesis by auto
    qed
  next
    case True
    with Cons.prems(1) obtain ls1 r1 where t: "log_process_tree fuel snap cm r [] = Some (ls1, r1)"
      by (auto split: option.splits)
    show ?thesis
    proof (cases r1)
      case (Inl x)
      with t True Cons.prems have "l \<in> set ls1" by auto
      with t show ?thesis by (auto dest: log_process_tree_lines_subtree)
    next
      case (Inr info)
      with t True Cons.prems(1) obtain ls2 where
        rest: "log_roots fuel snap cm rs (e + error_count info) = Some (ls2, res)"
        and ls: "ls = ls1 @ ls2"
        by (auto split: option.splits)
      from Cons.prems(2) ls consider "l \<in> set ls1" | "l \<in> set ls2" by auto
      then show ?thesis
      proof cases
        case 1
        with t show ?thesis by (auto dest: log_process_tree_lines_subtree)
      next
        case 2
        from Cons.IH[OF rest 2] show ?thesis by auto
      qed
    qed
  qed
qed

lemma log_roots_returns:
  "(\<And>r. r \<in> set rs \<Longrightarrow> log_process_tree fuel snap cm r [] \<noteq> None)
     \<Longrightarrow> log_roots fuel snap cm rs e \<noteq> None"
proof (induction rs arbitrary: e)
  case Nil
  then show ?case by simp
next
  case (Cons r rs)
  have rest: "\<And>e'. log_roots fuel snap cm rs e' \<noteq> None"
    by (rule Cons.IH) (simp add: Cons.prems)
  from Cons.prems obtain ls1 r1 where t: "log_process_tree fuel snap cm r [] = Some (ls1, r1)"
    by fastforce
  show ?case
  proof (cases "r \<in> fst ` set snap")
    case False
    from rest[of e] obtain w where "log_roots fuel snap cm rs e = Some w" by blast
    with False show ?thesis by (cases w) simp
  next
    case True
    show ?thesis
    proof (cases r1)
      case (Inl x)
      with t True show ?thesis by simp
    next
      case (Inr info)
      from rest[of "e + error_count info"] obtain w
        where "log_roots fuel snap cm rs (e + error_count info) = Some w" by blast
      with t True Inr show ?thesis by (cases w) simp
    qed
  qed
qed

lemma root_at_depth_0:
  assumes "distinct (map fst snap)" and "r \<in> set (root_pids_to_log snap)"
  shows "at_depth snap 0 r"
  using assms by (simp add: root_pids_to_log_def root_candidate_live_parent at_depth_def)

lemma live_parent_iff:
  "(live_parent snap c = Some q)
     = (\<exists>d. map_of snap c = Some d \<and> ppid d = Some q \<and> q \<noteq> 0 \<and> q \<in> fst ` set snap)"
  by (auto simp: live_parent_def is_live_parent_def split: option.splits)


text \<open>
  Claim C10, as amended. In a snapshot with distinct keys (a dictionary), a member \<open>n\<close> of
  a parent-link cycle among live ids none of whose links goes to the sentinel \<open>0\<close> is no
  root, lies in the subtree of no root, and so no line of the unfiltered snapshot block
  carries its pid; every id is recorded as a child of at most one parent; and the walk
  over the roots returns whenever the fuel exceeds the number of samples, cycles or not.
\<close>

theorem cycle_members_omitted:
  assumes dist: "distinct (map fst snap)" and cyc: "on_cycle snap n"
  shows "n \<notin> set (root_pids_to_log snap)
     \<and> (\<forall>r \<in> set (root_pids_to_log snap).
           n \<notin> subtree snap (children_map (build_forest snap)) r)
     \<and> (\<forall>fuel ls res. write_snapshot fuel snap = Some (ls, res) \<longrightarrow> n \<notin> ln_pid ` set ls)
     \<and> (\<forall>c q q'. c \<in> set (children_map (build_forest snap) q)
           \<and> c \<in> set (children_map (build_forest snap) q') \<longrightarrow> q = q')
     \<and> (\<forall>fuel > length snap. write_snapshot fuel snap \<noteq> None)"
proof -
  have a: "n \<notin> set (root_pids_to_log snap)"
    using root_at_depth_0[OF dist] cycle_no_depth[OF cyc] by blast
  have b: "\<forall>r \<in> set (root_pids_to_log snap).
             n \<notin> subtree snap (children_map (build_forest snap)) r"
  proof
    fix r assume "r \<in> set (root_pids_to_log snap)"
    then have "live_parent snap r = None"
      using root_at_depth_0[OF dist] by (simp add: at_depth_def)
    then show "n \<notin> subtree snap (children_map (build_forest snap)) r"
      using cycle_not_under_root[OF cyc] by (simp add: subtree_climb[OF dist])
  qed
  have c: "\<forall>fuel ls res. write_snapshot fuel snap = Some (ls, res) \<longrightarrow> n \<notin> ln_pid ` set ls"
    unfolding write_snapshot_def using b log_roots_lines by blast
  have d: "\<forall>c q q'. c \<in> set (children_map (build_forest snap) q)
             \<and> c \<in> set (children_map (build_forest snap) q') \<longrightarrow> q = q'"
    by (auto simp: mem_children_map[OF dist])
  have e: "\<forall>fuel > length snap. write_snapshot fuel snap \<noteq> None"
  proof (intro allI impI)
    fix fuel assume "length snap < fuel"
    then have "log_process_tree fuel snap (children_map (build_forest snap)) r [] \<noteq> None"
      if "r \<in> set (root_pids_to_log snap)" for r
      using log_process_tree_returns[OF dist root_at_depth_0[OF dist that]] by simp
    then show "write_snapshot fuel snap \<noteq> None"
      unfolding write_snapshot_def by (rule log_roots_returns)
  qed
  from a b c d e show ?thesis by blast
qed

text \<open>In the scenario, \<open>20\<close> and \<open>21\<close> are each other's parent.\<close>

theorem cycle_members_omitted_witness:
  "distinct (map fst scenario_snapshot) \<and> on_cycle scenario_snapshot 20
   \<and> 20 \<notin> set (root_pids_to_log scenario_snapshot)
   \<and> 20 \<notin> subtree scenario_snapshot (children_map (build_forest scenario_snapshot)) 1
   \<and> write_snapshot 7 scenario_snapshot \<noteq> None
   \<and> 20 \<notin> ln_pid ` set (fst (the (write_snapshot 7 scenario_snapshot)))"
proof -
  have dist: "distinct (map fst scenario_snapshot)"
    by (simp add: scenario_snapshot_def scenario_sample_def)
  have "climb scenario_snapshot (Suc (Suc 0)) 20 = Some 20"
    by (simp add: live_parent_def is_live_parent_def scenario_snapshot_def scenario_sample_def)
  then have cyc: "on_cycle scenario_snapshot 20"
    unfolding on_cycle_def by blast
  have "1 \<in> fst ` set scenario_snapshot \<and> live_parent scenario_snapshot 1 = None"
    by (simp add: live_parent_def is_live_parent_def scenario_snapshot_def scenario_sample_def)
  then have root: "1 \<in> set (root_pids_to_log scenario_snapshot)"
    by (simp add: root_pids_to_log_def root_candidate_live_parent[OF dist])
  have len: "length scenario_snapshot < 7"
    by (simp add: scenario_snapshot_def)
  note om = cycle_members_omitted[OF dist cyc]
  from om len have ret: "write_snapshot 7 scenario_snapshot \<noteq> None" by blast
  then obtain ls res where w: "write_snapshot 7 scenario_snapshot = Some (ls, res)"
    by fastforce
  with om have "20 \<notin> ln_pid ` set ls" by blast
  with w om root dist cyc ret show ?thesis by auto
qed

text \<open>
  The claim as stated fails for cycles through the sentinel: a process \<open>0\<close> that is its
  own parent is a root and is written, and of two processes \<open>0\<close> and \<open>5\<close> that are each
  other's parent, \<open>5\<close> is a root and both are written.
\<close>

theorem self_parent_zero_is_root:
  "map_option ppid (map_of idle_snapshot 0) = Some (Some 0)
   \<and> root_pids_to_log idle_snapshot = [0]
   \<and> map ln_pid (fst (the (write_snapshot 2 idle_snapshot))) = [0]
   \<and> map_option ppid (map_of zero_cycle_snapshot 0) = Some (Some 5)
   \<and> map_option ppid (map_of zero_cycle_snapshot 5) = Some (Some 0)
   \<and> root_pids_to_log zero_cycle_snapshot = [5]
   \<and> map ln_pid (fst (the (write_snapshot 3 zero_cycle_snapshot))) = [0, 5]"
  by code_simp

section \<open>The additive law of the subtree totals\<close>

lemma sum_children_Inr:
  "sum_children rec cs acc = Some (ls, Inr t)
     \<Longrightarrow> \<exists>ws. list_all2 (\<lambda>c w. rec c = Some (fst w, Inr (snd w))) cs ws
            \<and> ls = concat (map fst ws) \<and> t = foldl add_totals acc (map snd ws)"
proof (induction cs arbitrary: acc ls)
  case Nil
  then show ?case by simp
next
  case (Cons c cs)
  from Cons.prems obtain ls1 r1 where c: "rec c = Some (ls1, r1)"
    by (auto split: option.splits)
  from Cons.prems c obtain t1 where r1: "r1 = Inr t1"
    by (cases r1) auto
  from Cons.prems c r1 obtain ls2 where
    rest: "sum_children rec cs (add_totals acc t1) = Some (ls2, Inr t)" and ls: "ls = ls1 @ ls2"
    by (auto split: option.splits)
  from Cons.IH[OF rest] obtain ws where
    ws: "list_all2 (\<lambda>c w. rec c = Some (fst w, Inr (snd w))) cs ws"
        "ls2 = concat (map fst ws)" "t = foldl add_totals (add_totals acc t1) (map snd ws)"
    by blast
  have "list_all2 (\<lambda>c w. rec c = Some (fst w, Inr (snd w))) (c # cs) ((ls1, t1) # ws)"
    using ws(1) c r1 by simp
  moreover have "ls = concat (map fst ((ls1, t1) # ws))" using ls ws(2) by simp
  moreover have "t = foldl add_totals acc (map snd ((ls1, t1) # ws))" using ws(3) by simp
  ultimately show ?case by blast
qed

lemma foldl_add_totals:
  "cpu (foldl add_totals acc ts) = cpu acc + sum_list (map cpu ts)"
  "ws_kb (foldl add_totals acc ts) = ws_kb acc + sum_list (map ws_kb ts)"
  "sum_delta_read_bytes (foldl add_totals acc ts)
     = sum_delta_read_bytes acc + sum_list (map sum_delta_read_bytes ts)"
  "sum_delta_write_bytes (foldl add_totals acc ts)
     = sum_delta_write_bytes acc + sum_list (map sum_delta_write_bytes ts)"
  "error_count (foldl add_totals acc ts) = error_count acc + sum_list (map error_count ts)"
  by (induction ts arbitrary: acc) (simp_all add: add_totals_def)

lemma sum_children_mono:
  "sum_children rec cs acc = Some w
     \<Longrightarrow> (\<And>c w'. c \<in> set cs \<Longrightarrow> rec c = Some w' \<Longrightarrow> rec' c = Some w')
     \<Longrightarrow> sum_children rec' cs acc = Some w"
proof (induction cs arbitrary: acc w)
  case Nil
  then show ?case by simp
next
  case (Cons c cs)
  from Cons.prems(1) obtain ls1 r1 where c: "rec c = Some (ls1, r1)"
    by (auto split: option.splits)
  then have c': "rec' c = Some (ls1, r1)" by (simp add: Cons.prems(2))
  show ?case
  proof (cases r1)
    case (Inl e)
    with c c' Cons.prems(1) show ?thesis by auto
  next
    case (Inr t1)
    with c Cons.prems(1) obtain w2 where
      rest: "sum_children rec cs (add_totals acc t1) = Some w2"
      by (auto split: option.splits)
    have "sum_children rec' cs (add_totals acc t1) = Some w2"
      by (rule Cons.IH[OF rest]) (simp add: Cons.prems(2))
    with rest c c' Inr Cons.prems(1) show ?thesis by auto
  qed
qed

lemma log_process_tree_Suc:
  "log_process_tree k snap cm p indent = Some w
     \<Longrightarrow> log_process_tree (Suc k) snap cm p indent = Some w"
proof (induction k arbitrary: p indent w)
  case 0
  then show ?case by simp
next
  case (Suc k)
  show ?case
  proof (cases "map_of snap p")
    case None
    with Suc.prems show ?thesis by simp
  next
    case (Some data)
    let ?cs = "sort (valid_children_pids snap cm p)"
    from Suc.prems Some obtain w1 where
      sc: "sum_children (\<lambda>c. log_process_tree k snap cm c (indent @ INDENT_STRING)) ?cs zero_totals
             = Some w1"
      by (auto split: option.splits)
    have "sum_children (\<lambda>c. log_process_tree (Suc k) snap cm c (indent @ INDENT_STRING)) ?cs
            zero_totals = Some w1"
      by (rule sum_children_mono[OF sc]) (rule Suc.IH)
    with sc Suc.prems Some show ?thesis by simp
  qed
qed

lemma log_process_tree_node:
  assumes "log_process_tree (Suc k) snap cm p indent = Some (ls, Inr tot)"
    and "map_of snap p = Some data"
  shows "\<exists>ws line.
      list_all2 (\<lambda>c w. log_process_tree k snap cm c (indent @ INDENT_STRING)
                          = Some (fst w, Inr (snd w)))
        (sort (valid_children_pids snap cm p)) ws
      \<and> render_line indent p data (length (valid_children_pids snap cm p)) tot = Inr line
      \<and> ls = concat (map fst ws) @ [line]
      \<and> tot = total_for_node data (foldl add_totals zero_totals (map snd ws))"
proof -
  let ?rec = "\<lambda>c. log_process_tree k snap cm c (indent @ INDENT_STRING)"
  let ?cs = "sort (valid_children_pids snap cm p)"
  from assms obtain ls1 r1 where sc: "sum_children ?rec ?cs zero_totals = Some (ls1, r1)"
    by (auto split: option.splits)
  from assms sc obtain ct where r1: "r1 = Inr ct" by (cases r1) auto
  from assms sc r1 obtain line where
    line: "render_line indent p data (length (valid_children_pids snap cm p))
             (total_for_node data ct) = Inr line"
    and ls: "ls = ls1 @ [line]" and tot: "tot = total_for_node data ct"
    by (auto split: sum.splits)
  from sum_children_Inr[OF sc[unfolded r1]] obtain ws where
    "list_all2 (\<lambda>c w. ?rec c = Some (fst w, Inr (snd w))) ?cs ws"
    "ls1 = concat (map fst ws)" "ct = foldl add_totals zero_totals (map snd ws)"
    by blast
  with line ls tot show ?thesis by blast
qed

text \<open>
  Claim C6. When the walk returns totals for a node of the snapshot, every live child
  (a recorded child that is a key of the snapshot) returns totals too, and the node's CPU
  is its own CPU plus the sum of the children's returned CPU; likewise for the memory and
  the read and write byte deltas. Nothing is normalised: the sum may exceed 100.
\<close>

theorem subtree_totals_additive:
  assumes "log_process_tree k snap cm p indent = Some (ls, Inr tot)"
    and "map_of snap p = Some data"
  shows "\<exists>child_sums.
      list_all2 (\<lambda>c t. \<exists>ls'. log_process_tree k snap cm c (indent @ INDENT_STRING)
                                = Some (ls', Inr t))
        (sort (valid_children_pids snap cm p)) child_sums
      \<and> cpu tot = cpu_percent data + sum_list (map cpu child_sums)
      \<and> ws_kb tot = mem_ws_kb data + sum_list (map ws_kb child_sums)
      \<and> sum_delta_read_bytes tot
            = delta_read_bytes data + sum_list (map sum_delta_read_bytes child_sums)
      \<and> sum_delta_write_bytes tot
            = delta_write_bytes data + sum_list (map sum_delta_write_bytes child_sums)"
proof (cases k)
  case 0
  with assms show ?thesis by simp
next
  case (Suc k')
  from log_process_tree_node[OF assms(1)[unfolded Suc] assms(2)] obtain ws where
    ws: "list_all2 (\<lambda>c w. log_process_tree k' snap cm c (indent @ INDENT_STRING)
                          = Some (fst w, Inr (snd w)))
           (sort (valid_children_pids snap cm p)) ws"
    and tot: "tot = total_for_node data (foldl add_totals zero_totals (map snd ws))"
    by blast
  have "list_all2 (\<lambda>c t. \<exists>ls'. log_process_tree k snap cm c (indent @ INDENT_STRING)
                                = Some (ls', Inr t))
          (sort (valid_children_pids snap cm p)) (map snd ws)"
    unfolding list_all2_map2 Suc
    by (rule list_all2_mono[OF ws]) (blast dest: log_process_tree_Suc)
  moreover have "cpu tot = cpu_percent data + sum_list (map cpu (map snd ws))"
    "ws_kb tot = mem_ws_kb data + sum_list (map ws_kb (map snd ws))"
    "sum_delta_read_bytes tot
       = delta_read_bytes data + sum_list (map sum_delta_read_bytes (map snd ws))"
    "sum_delta_write_bytes tot
       = delta_write_bytes data + sum_list (map sum_delta_write_bytes (map snd ws))"
    unfolding tot by (simp_all add: total_for_node_def foldl_add_totals zero_totals_def)
  ultimately show ?thesis by blast
qed

text \<open>In the scenario the tree of root \<open>1\<close> sums to 115.\<close>

theorem subtree_totals_additive_witness:
  "\<exists>ls tot child_sums.
      log_process_tree (Suc (Suc 0)) scenario_snapshot
        (children_map (build_forest scenario_snapshot)) 1 [] = Some (ls, Inr tot)
      \<and> map_of scenario_snapshot 1 = Some (snd (scenario_sample 1 (Some 0) ''running'' 100))
      \<and> list_all2 (\<lambda>c t. \<exists>ls'. log_process_tree (Suc (Suc 0)) scenario_snapshot
                                 (children_map (build_forest scenario_snapshot)) c
                                 ([] @ INDENT_STRING) = Some (ls', Inr t))
            (sort (valid_children_pids scenario_snapshot
                     (children_map (build_forest scenario_snapshot)) 1)) child_sums
      \<and> cpu tot = 100 + sum_list (map cpu child_sums) \<and> cpu tot = 115"
proof -
  obtain ls tot where w: "log_process_tree (Suc (Suc 0)) scenario_snapshot
       (children_map (build_forest scenario_snapshot)) 1 [] = Some (ls, Inr tot)"
    and c: "cpu tot = 115"
    by (simp add: scenario_snapshot_def scenario_sample_def build_forest_def
          is_live_parent_def is_root_parent_def set_add_def valid_children_pids_def
          render_line_def Let_def total_for_node_def add_totals_def zero_totals_def)
  have m: "map_of scenario_snapshot 1 = Some (snd (scenario_sample 1 (Some 0) ''running'' 100))"
    by (simp add: scenario_snapshot_def scenario_sample_def)
  from subtree_totals_additive[OF w m] obtain child_sums where
    "list_all2 (\<lambda>c t. \<exists>ls'. log_process_tree (Suc (Suc 0)) scenario_snapshot
                                 (children_map (build_forest scenario_snapshot)) c
                                 ([] @ INDENT_STRING) = Some (ls', Inr t))
            (sort (valid_children_pids scenario_snapshot
                     (children_map (build_forest scenario_snapshot)) 1)) child_sums"
    "cpu tot = cpu_percent (snd (scenario_sample 1 (Some 0) ''running'' 100))
                 + sum_list (map cpu child_sums)"
    by blast
  moreover have "cpu_percent (snd (scenario_sample 1 (Some 0) ''running'' 100)) = 100"
    by (simp add: scenario_sample_def)
  ultimately show ?thesis using w m c by auto
qed

section \<open>The error count of a subtree\<close>

lemma list_all2_right_witness:
  "list_all2 P cs ws \<Longrightarrow> w \<in> set ws \<Longrightarrow> \<exists>c \<in> set cs. P c w"
  by (induction rule: list_all2_induct) auto

lemma list_all2_left_witness:
  "list_all2 P cs ws \<Longrightarrow> c \<in> set cs \<Longrightarrow> \<exists>w \<in> set ws. P c w"
  by (induction rule: list_all2_induct) auto

lemma sum_list_error_lines:
  "(\<And>w. w \<in> set ws \<Longrightarrow> error_count (snd w) = int (length (filter E (fst w))))
     \<Longrightarrow> sum_list (map error_count (map snd ws)) = int (length (filter E (concat (map fst ws))))"
  by (induction ws) auto

lemma missing_line_pid: "ln_pid (missing_line indent p) = p"
  by (simp add: missing_line_def)

lemma map_of_keys: "(p \<in> fst ` set snap) = (\<exists>d. map_of snap p = Some d)"
  by (metis domIff dom_map_of_conv_image_fst not_Some_eq)

lemma error_count_lines:
  "log_process_tree k snap cm p indent = Some (ls, Inr tot)
     \<Longrightarrow> error_count tot = int (length (filter (\<lambda>l. node_error snap (ln_pid l)) ls))"
proof (induction k arbitrary: p indent ls tot)
  case 0
  then show ?case by simp
next
  case (Suc k)
  show ?case
  proof (cases "map_of snap p")
    case None
    with Suc.prems show ?thesis
      by (auto simp: missing_line_def missing_totals_def node_error_def)
  next
    case (Some data)
    from log_process_tree_node[OF Suc.prems Some] obtain ws line where
      ws: "list_all2 (\<lambda>c w. log_process_tree k snap cm c (indent @ INDENT_STRING)
                          = Some (fst w, Inr (snd w)))
             (sort (valid_children_pids snap cm p)) ws"
      and line: "render_line indent p data (length (valid_children_pids snap cm p)) tot = Inr line"
      and ls: "ls = concat (map fst ws) @ [line]"
      and tot: "tot = total_for_node data (foldl add_totals zero_totals (map snd ws))"
      by blast
    have "error_count (snd w) = int (length (filter (\<lambda>l. node_error snap (ln_pid l)) (fst w)))"
      if "w \<in> set ws" for w
      using list_all2_right_witness[OF ws that] Suc.IH by blast
    then have "sum_list (map error_count (map snd ws))
        = int (length (filter (\<lambda>l. node_error snap (ln_pid l)) (concat (map fst ws))))"
      by (rule sum_list_error_lines)
    moreover have "node_error snap (ln_pid line) = is_error_status (status data)"
      using render_line_pid[OF line] Some by (simp add: node_error_def)
    ultimately show ?thesis
      unfolding ls tot
      by (simp add: total_for_node_def foldl_add_totals zero_totals_def)
  qed
qed

lemma subtree_lines:
  "log_process_tree k snap cm p indent = Some (ls, Inr tot) \<Longrightarrow> n \<in> subtree snap cm p
     \<Longrightarrow> n \<in> ln_pid ` set ls"
proof (induction k arbitrary: p indent ls tot n)
  case 0
  then show ?case by simp
next
  case (Suc k)
  show ?case
  proof (cases "map_of snap p")
    case None
    then have "p \<notin> fst ` set snap" by (simp add: map_of_keys)
    with subtree_cases[OF Suc.prems(2)] have "n = p" by blast
    with None Suc.prems(1) show ?thesis by (auto simp: missing_line_def)
  next
    case (Some data)
    from log_process_tree_node[OF Suc.prems(1) Some] obtain ws line where
      ws: "list_all2 (\<lambda>c w. log_process_tree k snap cm c (indent @ INDENT_STRING)
                          = Some (fst w, Inr (snd w)))
             (sort (valid_children_pids snap cm p)) ws"
      and line: "render_line indent p data (length (valid_children_pids snap cm p)) tot = Inr line"
      and ls: "ls = concat (map fst ws) @ [line]"
      by blast
    from subtree_cases[OF Suc.prems(2)] show ?thesis
    proof
      assume "n = p"
      with render_line_pid[OF line] ls show ?thesis by force
    next
      assume "p \<in> fst ` set snap \<and> (\<exists>c\<in>set (valid_children_pids snap cm p). n \<in> subtree snap cm c)"
      then obtain c where c: "c \<in> set (sort (valid_children_pids snap cm p))"
        "n \<in> subtree snap cm c" by auto
      from list_all2_left_witness[OF ws c(1)] obtain w where
        w: "w \<in> set ws" "log_process_tree k snap cm c (indent @ INDENT_STRING)
                            = Some (fst w, Inr (snd w))" by blast
      from Suc.IH[OF w(2) c(2)] have "n \<in> ln_pid ` set (fst w)" .
      with w(1) ls show ?thesis by auto
    qed
  qed
qed

lemma distinct_concat_lines:
  "list_all2 Q cs ws \<Longrightarrow> distinct cs
     \<Longrightarrow> (\<And>c w. c \<in> set cs \<Longrightarrow> Q c w \<Longrightarrow> distinct (map g (fst w)) \<and> g ` set (fst w) \<subseteq> D c)
     \<Longrightarrow> (\<And>c c'. c \<in> set cs \<Longrightarrow> c' \<in> set cs \<Longrightarrow> c \<noteq> c' \<Longrightarrow> D c \<inter> D c' = {})
     \<Longrightarrow> distinct (map g (concat (map fst ws)))
         \<and> g ` set (concat (map fst ws)) \<subseteq> \<Union> (D ` set cs)"
proof (induction rule: list_all2_induct)
  case Nil
  then show ?case by simp
next
  case (Cons c cs w ws)
  have ih: "distinct (map g (concat (map fst ws)))
          \<and> g ` set (concat (map fst ws)) \<subseteq> \<Union> (D ` set cs)"
    using Cons.prems by (intro Cons.IH) auto
  have w: "distinct (map g (fst w))" "g ` set (fst w) \<subseteq> D c"
    using Cons.prems(2)[of c w] Cons.hyps(1) by auto
  have "D c \<inter> \<Union> (D ` set cs) = {}"
    using Cons.prems(1,3) by fastforce
  with ih w have inter: "g ` set (fst w) \<inter> g ` set (concat (map fst ws)) = {}" by blast
  have "distinct (map g (concat (map fst (w # ws))))"
    using ih w(1) inter
    by (simp only: list.map concat.simps map_append distinct_append set_map)
  moreover have "g ` set (concat (map fst (w # ws))) \<subseteq> \<Union> (D ` set (c # cs))"
  proof -
    have "g ` set (concat (map fst (w # ws)))
            = g ` set (fst w) \<union> g ` set (concat (map fst ws))"
      by (simp only: list.map concat.simps set_append image_Un)
    also have "\<dots> \<subseteq> D c \<union> \<Union> (D ` set cs)" using w(2) ih by blast
    finally show ?thesis by simp
  qed
  ultimately show ?case by blast
qed

lemma lines_distinct:
  assumes dist: "distinct (map fst snap)"
  shows "log_process_tree k snap (children_map (build_forest snap)) p indent = Some (ls, Inr tot)
     \<Longrightarrow> at_depth snap d p \<Longrightarrow> distinct (map ln_pid ls)"
proof (induction k arbitrary: p indent ls tot d)
  case 0
  then show ?case by simp
next
  case (Suc k)
  let ?cm = "children_map (build_forest snap)"
  show ?case
  proof (cases "map_of snap p")
    case None
    with Suc.prems(1) show ?thesis by auto
  next
    case (Some data)
    let ?cs = "sort (valid_children_pids snap ?cm p)"
    let ?Q = "\<lambda>c w. log_process_tree k snap ?cm c (indent @ INDENT_STRING)
                          = Some (fst w, Inr (snd w))"
    from log_process_tree_node[OF Suc.prems(1) Some] obtain ws line where
      ws: "list_all2 ?Q ?cs ws"
      and line: "render_line indent p data (length (valid_children_pids snap ?cm p)) tot = Inr line"
      and ls: "ls = concat (map fst ws) @ [line]"
      by blast
    have child: "live_parent snap c = Some p" "at_depth snap (Suc d) c" if "c \<in> set ?cs" for c
    proof -
      from that show "live_parent snap c = Some p"
        by (simp add: valid_children_build[OF dist] mem_children_map[OF dist])
      then show "at_depth snap (Suc d) c" using Suc.prems(2) by (rule at_depth_child)
    qed
    have dcs: "distinct ?cs"
      by (simp add: valid_children_build[OF dist] distinct_children_map[OF dist])
    have per_child: "distinct (map ln_pid (fst w)) \<and> ln_pid ` set (fst w) \<subseteq> subtree snap ?cm c"
      if "c \<in> set ?cs" "?Q c w" for c w
      using Suc.IH[OF that(2) child(2)[OF that(1)]] log_process_tree_lines_subtree[OF that(2)]
      by blast
    have disjoint: "subtree snap ?cm c \<inter> subtree snap ?cm c' = {}"
      if "c \<in> set ?cs" "c' \<in> set ?cs" "c \<noteq> c'" for c c'
    proof (rule ccontr)
      assume "subtree snap ?cm c \<inter> subtree snap ?cm c' \<noteq> {}"
      then obtain n j j' where j: "climb snap j n = Some c" "climb snap j' n = Some c'"
        by (auto simp: subtree_climb[OF dist])
      have "at_depth snap (j + Suc d) n"
        using j(1) child(2)[OF that(1)] by (rule at_depth_climb)
      moreover have "at_depth snap (j' + Suc d) n"
        using j(2) child(2)[OF that(2)] by (rule at_depth_climb)
      ultimately have "j + Suc d = j' + Suc d" by (rule depth_unique)
      with j that(3) show False by simp
    qed
    from distinct_concat_lines[of ?Q ?cs ws ln_pid "subtree snap ?cm", OF ws dcs per_child disjoint]
    have dc: "distinct (map ln_pid (concat (map fst ws)))"
      and sub: "ln_pid ` set (concat (map fst ws)) \<subseteq> \<Union> (subtree snap ?cm ` set ?cs)"
      by blast+
    have "p \<notin> ln_pid ` set (concat (map fst ws))"
    proof
      assume "p \<in> ln_pid ` set (concat (map fst ws))"
      with sub obtain c where c: "c \<in> set ?cs" "p \<in> subtree snap ?cm c" by blast
      then obtain j where "climb snap j p = Some c" by (auto simp: subtree_climb[OF dist])
      then have "at_depth snap (j + Suc d) p"
        using child(2)[OF c(1)] by (rule at_depth_climb)
      from depth_unique[OF this Suc.prems(2)] show False by simp
    qed
    with dc render_line_pid[OF line] show ?thesis
      unfolding ls by auto
  qed
qed

text \<open>
  What the walk counts. In the forest built from a snapshot with distinct keys, for every
  pid that hangs under a root (a root itself is at depth \<open>0\<close>, and so is a pid absent
  from the snapshot), the \<^verbatim>\<open>error_count\<close> returned is the number of nodes of the subtree
  for which \<open>node_error\<close> holds. The count is a cardinality of a set of nodes, so it does
  not depend on the order of the walk.
\<close>

lemma error_count_subtree:
  assumes dist: "distinct (map fst snap)"
    and depth: "at_depth snap d p"
    and walk: "log_process_tree k snap (children_map (build_forest snap)) p indent
                 = Some (ls, Inr tot)"
  shows "error_count tot
           = int (card {n \<in> subtree snap (children_map (build_forest snap)) p. node_error snap n})"
proof -
  let ?cm = "children_map (build_forest snap)"
  have set_eq: "ln_pid ` set ls = subtree snap ?cm p"
    using log_process_tree_lines_subtree[OF walk] subtree_lines[OF walk] by blast
  have d: "distinct (map ln_pid ls)" using lines_distinct[OF dist walk depth] .
  have "length (filter (\<lambda>l. node_error snap (ln_pid l)) ls)
          = length (filter (node_error snap) (map ln_pid ls))"
    by (simp add: filter_map comp_def)
  also have "\<dots> = card (set (filter (node_error snap) (map ln_pid ls)))"
    using distinct_filter[OF d] by (rule distinct_card[symmetric])
  also have "set (filter (node_error snap) (map ln_pid ls))
               = {n \<in> subtree snap ?cm p. node_error snap n}"
    using set_eq by auto
  finally show ?thesis
    using error_count_lines[OF walk] by simp
qed

lemma error_count_subtree_scenario:
  "distinct (map fst scenario_snapshot) \<and> at_depth scenario_snapshot 0 1
   \<and> (\<exists>ls tot.
        log_process_tree (Suc (Suc 0)) scenario_snapshot
          (children_map (build_forest scenario_snapshot)) 1 [] = Some (ls, Inr tot)
        \<and> error_count tot
            = int (card {n \<in> subtree scenario_snapshot
                              (children_map (build_forest scenario_snapshot)) 1.
                         node_error scenario_snapshot n}))"
proof -
  have dist: "distinct (map fst scenario_snapshot)"
    by (simp add: scenario_snapshot_def scenario_sample_def)
  have depth: "at_depth scenario_snapshot 0 1"
    by (simp add: at_depth_def live_parent_def is_live_parent_def scenario_snapshot_def
          scenario_sample_def)
  obtain ls tot where w: "log_process_tree (Suc (Suc 0)) scenario_snapshot
       (children_map (build_forest scenario_snapshot)) 1 [] = Some (ls, Inr tot)"
    by (simp add: scenario_snapshot_def scenario_sample_def build_forest_def
          is_live_parent_def is_root_parent_def set_add_def valid_children_pids_def
          render_line_def Let_def)
  from error_count_subtree[OF dist depth w] dist depth w show ?thesis by blast
qed



section \<open>The width of the name column\<close>

lemma length_ljust: "int (length (ljust n s)) = max n (int (length s))"
  by (simp add: ljust_def)

lemma slice_width_bounds:
  assumes "slice_width display_name (name_field_length indent) = Some (k, suffix)"
  shows "0 \<le> k" and "k \<le> int (length display_name)"
    and "k + int (length suffix) = name_field_length indent"
  using assms by (auto simp: slice_width_def name_field_length_def split: if_splits)

lemma length_truncate_name:
  "int (length (truncate_name display_name (name_field_length indent)))
     \<le> name_field_length indent"
proof (cases "slice_width display_name (name_field_length indent)")
  case None
  then show ?thesis
    by (auto simp: truncate_name_def slice_width_def split: if_splits)
next
  case (Some a)
  obtain k suffix where a: "a = (k, suffix)" by (cases a)
  from slice_width_bounds[OF Some[unfolded a]] Some a show ?thesis
    by (simp add: truncate_name_def py_slice_to_def)
qed

lemma render_line_fields:
  assumes "render_line ind q data n t = Inr l"
  shows "ln_indent l = ind"
    and "\<exists>dn. ln_name_field l
               = ljust (name_field_length ind) (truncate_name dn (name_field_length ind))"
proof -
  from assms obtain nm st where "name data = Some nm" "status data = Some st"
    by (cases "name data"; cases "status data") (auto simp: render_line_def Let_def)
  with assms show "ln_indent l = ind"
    and "\<exists>dn. ln_name_field l
               = ljust (name_field_length ind) (truncate_name dn (name_field_length ind))"
    by (auto simp: render_line_def Let_def)
qed

lemma log_process_tree_line_cases:
  "log_process_tree k snap cm p indent = Some (ls, r) \<Longrightarrow> l \<in> set ls
     \<Longrightarrow> (\<exists>ind' q. l = missing_line ind' q)
         \<or> (\<exists>ind' q data n t. render_line ind' q data n t = Inr l)"
proof (induction k arbitrary: p indent ls r l)
  case 0
  then show ?case by simp
next
  case (Suc k)
  show ?case
  proof (cases "map_of snap p")
    case None
    with Suc.prems have "l = missing_line indent p" by auto
    then show ?thesis by blast
  next
    case (Some data)
    let ?rec = "\<lambda>c. log_process_tree k snap cm c (indent @ INDENT_STRING)"
    let ?cs = "sort (valid_children_pids snap cm p)"
    from Suc.prems(1) Some obtain ls1 r1 where
      sc: "sum_children ?rec ?cs zero_totals = Some (ls1, r1)"
      by (auto split: option.splits)
    have from_children: ?thesis if "l \<in> set ls1"
    proof -
      from sum_children_lines[OF sc that] obtain c ls' r'
        where c: "?rec c = Some (ls', r')" "l \<in> set ls'" by blast
      from Suc.IH[OF c] show ?thesis .
    qed
    show ?thesis
    proof (cases r1)
      case (Inl e)
      with Suc.prems Some sc have "l \<in> set ls1" by simp
      then show ?thesis by (rule from_children)
    next
      case (Inr ct)
      show ?thesis
      proof (cases "render_line indent p data (length (valid_children_pids snap cm p))
                      (total_for_node data ct)")
        case (Inl e)
        with Suc.prems Some sc Inr have "l \<in> set ls1" by simp
        then show ?thesis by (rule from_children)
      next
        case line: (Inr line)
        with Suc.prems Some sc Inr have "l \<in> set ls1 \<or> l = line" by auto
        then show ?thesis using from_children line by blast
      qed
    qed
  qed
qed

text \<open>
  Claim C9. The width of the name column is at least 1 for every indentation, hence at
  every depth of the recursion; every line that a walk writes has a name column of at
  least that width; a deeper indentation never widens it; and the width handed to the
  truncating slice is never negative (nor beyond the name), the truncated name fitting
  the column.
\<close>

theorem name_field_width_positive:
  assumes "log_process_tree k snap cm p indent = Some (ls, r)" and "l \<in> set ls"
  shows "1 \<le> name_field_length (ln_indent l)
     \<and> name_field_length (ln_indent l) \<le> int (length (ln_name_field l))
     \<and> 1 \<le> name_field_length ind
     \<and> name_field_length (ind @ INDENT_STRING) \<le> name_field_length ind
     \<and> (case slice_width display_name (name_field_length ind) of
          None \<Rightarrow> True
        | Some (w, suffix) \<Rightarrow> 0 \<le> w \<and> w \<le> int (length display_name))
     \<and> int (length (truncate_name display_name (name_field_length ind)))
          \<le> name_field_length ind"
proof -
  have a: "1 \<le> name_field_length i" for i by (simp add: name_field_length_def)
  have b: "name_field_length (ln_indent l) \<le> int (length (ln_name_field l))"
  proof -
    from log_process_tree_line_cases[OF assms] consider
      ind' q where "l = missing_line ind' q"
      | ind' q data n t where "render_line ind' q data n t = Inr l" by blast
    then show ?thesis
    proof cases
      case 1
      then show ?thesis by (simp add: missing_line_def length_ljust)
    next
      case 2
      from render_line_fields[OF 2] show ?thesis by (auto simp: length_ljust)
    qed
  qed
  have c: "name_field_length (ind @ INDENT_STRING) \<le> name_field_length ind"
    by (simp add: name_field_length_def)
  have d: "(case slice_width display_name (name_field_length ind) of
          None \<Rightarrow> True
        | Some (w, suffix) \<Rightarrow> 0 \<le> w \<and> w \<le> int (length display_name))"
    using slice_width_bounds[of display_name ind] by (auto split: option.splits)
  from a b c d length_truncate_name show ?thesis by blast
qed

theorem name_field_width_positive_witness:
  "\<exists>ls r l. log_process_tree (Suc (Suc 0)) scenario_snapshot
        (children_map (build_forest scenario_snapshot)) 1 [] = Some (ls, r) \<and> l \<in> set ls
     \<and> 1 \<le> name_field_length (ln_indent l)
     \<and> name_field_length (ln_indent l) \<le> int (length (ln_name_field l))
     \<and> 1 \<le> name_field_length (replicate 50 CHR '' '')"
proof -
  obtain ls tot where w: "log_process_tree (Suc (Suc 0)) scenario_snapshot
       (children_map (build_forest scenario_snapshot)) 1 [] = Some (ls, Inr tot)"
    and ne: "ls \<noteq> []"
    by (simp add: scenario_snapshot_def scenario_sample_def build_forest_def
          is_live_parent_def is_root_parent_def set_add_def valid_children_pids_def
          render_line_def Let_def)
  from ne obtain l where l: "l \<in> set ls" by (cases ls) auto
  from name_field_width_positive[OF w l, of "replicate 50 CHR '' ''" "[]"] w l
  show ?thesis by blast
qed

section \<open>The sampler: one pass over the enumerated processes\<close>

lemma snd_fetch_details: "snd (fetch_details env cpu_cores prev info p) = main_counters env p"
  by (auto simp: fetch_details_def fetch_io_def main_counters_def Let_def
           split: prod.splits sum.splits option.splits)

lemma store_details_simps:
  "current_snapshot_data (store_details r p st) = AList.update p (fst r) (current_snapshot_data st)"
  "current_io_snapshot (store_details r p st)
     = (case snd r of None \<Rightarrow> current_io_snapshot st
                    | Some c \<Rightarrow> (current_io_snapshot st)(p \<mapsto> c))"
  "previous_io_counters (store_details r p st) = previous_io_counters st"
  "process_objects_cache (store_details r p st) = process_objects_cache st"
  "pids_found_this_iter (store_details r p st) = pids_found_this_iter st"
  "newly_cached_pids (store_details r p st) = newly_cached_pids st"
  by (simp_all add: store_details_def Let_def split: option.splits)

lemma process_proc_skip:
  "pid_of proc = None \<Longrightarrow> process_proc env cpu_cores proc st = (None, st)"
  by (auto simp: pid_of_def process_proc_def split: option.splits)

lemma process_proc_previous:
  "previous_io_counters (snd (process_proc env cpu_cores proc st)) = previous_io_counters st"
  by (auto simp: process_proc_def Let_def store_details_simps split: option.splits)

lemma process_proc_found:
  "pids_found_this_iter (snd (process_proc env cpu_cores proc st))
     = pids_found_this_iter st \<union> set_option (pid_of proc)"
  by (auto simp: process_proc_def pid_of_def Let_def store_details_simps split: option.splits)

lemma process_proc_keys:
  "fst (process_proc env cpu_cores proc st) = None
     \<Longrightarrow> fst ` set (current_snapshot_data (snd (process_proc env cpu_cores proc st)))
         = fst ` set (current_snapshot_data st) \<union> set_option (pid_of proc)"
  by (auto simp: process_proc_def pid_of_def Let_def store_details_simps
        dom_map_of_conv_image_fst[symmetric] update_conv' simp del: dom_map_of_conv_image_fst
        split: option.splits if_splits)

lemma process_proc_distinct:
  "distinct (map fst (current_snapshot_data st))
     \<Longrightarrow> distinct (map fst (current_snapshot_data (snd (process_proc env cpu_cores proc st))))"
  by (auto simp: process_proc_def Let_def store_details_simps distinct_update split: option.splits)

lemma process_proc_frame:
  "pid_of proc \<noteq> Some p \<Longrightarrow> view (snd (process_proc env cpu_cores proc st)) p = view st p"
  by (auto simp: process_proc_def pid_of_def view_def Let_def store_details_simps update_conv'
           split: option.splits)

lemma process_proc_effect:
  assumes "pid_of proc = Some p" and "proc = Some info"
    and "fst (process_proc env cpu_cores proc st) = None"
  shows "view (snd (process_proc env cpu_cores proc st)) p
           = expected_view env cpu_cores (previous_io_counters st) info p (view st p)"
    and "acquire env (p \<in> process_objects_cache st) p \<noteq> Crashed"
  using assms
  by (auto simp: process_proc_def pid_of_def view_def expected_view_def acquire_def Let_def
        store_details_simps update_conv' snd_fetch_details
        split: option.splits if_splits)


lemma enumerated_pids_Cons:
  "enumerated_pids (proc # procs)
     = (case pid_of proc of None \<Rightarrow> enumerated_pids procs | Some p \<Rightarrow> p # enumerated_pids procs)"
  by (simp add: enumerated_pids_def split: option.splits)

lemma enumerated_pids_Nil: "enumerated_pids [] = []"
  by (simp add: enumerated_pids_def)

lemma set_enumerated_pids:
  "set (enumerated_pids procs) = {p. \<exists>proc \<in> set procs. pid_of proc = Some p}"
  by (induction procs) (auto simp: enumerated_pids_Nil enumerated_pids_Cons split: option.splits)

lemma in_enumerated_pids:
  "Some info \<in> set procs \<Longrightarrow> info_pid info = Some p \<Longrightarrow> p \<in> set (enumerated_pids procs)"
  by (force simp: set_enumerated_pids pid_of_def)

lemma collect_loop_step:
  assumes "collect_loop env cpu_cores (proc # procs) st = (None, st1)"
  shows "fst (process_proc env cpu_cores proc st) = None"
    and "collect_loop env cpu_cores procs (snd (process_proc env cpu_cores proc st)) = (None, st1)"
  using assms by (auto split: prod.splits option.splits)

lemma collect_loop_previous:
  "collect_loop env cpu_cores procs st = (r, st1)
     \<Longrightarrow> previous_io_counters st1 = previous_io_counters st"
proof (induction procs arbitrary: st)
  case Nil
  then show ?case by simp
next
  case (Cons proc procs)
  obtain r' st' where pp: "process_proc env cpu_cores proc st = (r', st')"
    by (cases "process_proc env cpu_cores proc st")
  have prev: "previous_io_counters st' = previous_io_counters st"
    using process_proc_previous[of env cpu_cores proc st] pp by simp
  show ?case
  proof (cases r')
    case None
    with Cons.prems pp have "collect_loop env cpu_cores procs st' = (r, st1)" by simp
    from Cons.IH[OF this] prev show ?thesis by simp
  next
    case (Some e)
    with Cons.prems pp prev show ?thesis by simp
  qed
qed

lemma collect_loop_keys:
  "collect_loop env cpu_cores procs st = (None, st1)
     \<Longrightarrow> fst ` set (current_snapshot_data st1)
         = fst ` set (current_snapshot_data st) \<union> set (enumerated_pids procs)"
proof (induction procs arbitrary: st)
  case Nil
  then show ?case by (simp add: enumerated_pids_Nil)
next
  case (Cons proc procs)
  note step = collect_loop_step[OF Cons.prems]
  from Cons.IH[OF step(2)] process_proc_keys[OF step(1)] show ?case
    by (auto simp: enumerated_pids_Cons split: option.splits)
qed

lemma collect_loop_distinct:
  "collect_loop env cpu_cores procs st = (r, st1)
     \<Longrightarrow> distinct (map fst (current_snapshot_data st))
     \<Longrightarrow> distinct (map fst (current_snapshot_data st1))"
proof (induction procs arbitrary: st)
  case Nil
  then show ?case by simp
next
  case (Cons proc procs)
  obtain r' st' where pp: "process_proc env cpu_cores proc st = (r', st')"
    by (cases "process_proc env cpu_cores proc st")
  have d: "distinct (map fst (current_snapshot_data st'))"
    using process_proc_distinct[OF Cons.prems(2), of env cpu_cores proc] pp by simp
  show ?case
  proof (cases r')
    case None
    with Cons.prems pp have "collect_loop env cpu_cores procs st' = (r, st1)" by simp
    from Cons.IH[OF this d] show ?thesis .
  next
    case (Some e)
    with Cons.prems pp d show ?thesis by simp
  qed
qed

lemma collect_loop_frame:
  "collect_loop env cpu_cores procs st = (None, st1) \<Longrightarrow> p \<notin> set (enumerated_pids procs)
     \<Longrightarrow> view st1 p = view st p"
proof (induction procs arbitrary: st)
  case Nil
  then show ?case by simp
next
  case (Cons proc procs)
  note step = collect_loop_step[OF Cons.prems(1)]
  from Cons.prems(2) have ne: "pid_of proc \<noteq> Some p" and rest: "p \<notin> set (enumerated_pids procs)"
    by (auto simp: enumerated_pids_Cons split: option.splits)
  from Cons.IH[OF step(2) rest] process_proc_frame[OF ne] show ?case by simp
qed

lemma collect_loop_effect:
  "collect_loop env cpu_cores procs st = (None, st1) \<Longrightarrow> distinct (enumerated_pids procs)
     \<Longrightarrow> Some info \<in> set procs \<Longrightarrow> info_pid info = Some p
     \<Longrightarrow> view st1 p = expected_view env cpu_cores (previous_io_counters st) info p (view st p)
         \<and> acquire env (p \<in> process_objects_cache st) p \<noteq> Crashed"
proof (induction procs arbitrary: st)
  case Nil
  then show ?case by simp
next
  case (Cons proc procs)
  note step = collect_loop_step[OF Cons.prems(1)]
  let ?st' = "snd (process_proc env cpu_cores proc st)"
  show ?case
  proof (cases "pid_of proc = Some p")
    case True
    with Cons.prems(2) have rest: "p \<notin> set (enumerated_pids procs)"
      by (simp add: enumerated_pids_Cons)
    have "proc = Some info"
    proof (rule ccontr)
      assume "proc \<noteq> Some info"
      with Cons.prems(3) have "Some info \<in> set procs" by simp
      from in_enumerated_pids[OF this Cons.prems(4)] rest show False by simp
    qed
    from process_proc_effect[OF True this step(1)] collect_loop_frame[OF step(2) rest]
    show ?thesis by simp
  next
    case False
    then have "proc \<noteq> Some info" using Cons.prems(4) by (auto simp: pid_of_def)
    with Cons.prems(3) have mem: "Some info \<in> set procs" by simp
    from Cons.prems(2) have d: "distinct (enumerated_pids procs)"
      by (auto simp: enumerated_pids_Cons split: option.splits)
    have v: "view ?st' p = view st p" using False by (rule process_proc_frame)
    then have c: "(p \<in> process_objects_cache ?st') = (p \<in> process_objects_cache st)"
      by (simp add: view_def)
    from Cons.IH[OF step(2) d mem Cons.prems(4)] v c process_proc_previous[of env cpu_cores proc st]
    show ?thesis by simp
  qed
qed

lemma prime_loop_unchanged:
  "process_objects_cache (prime_loop env ps st) = process_objects_cache st"
  "current_snapshot_data (prime_loop env ps st) = current_snapshot_data st"
  "pids_found_this_iter (prime_loop env ps st) = pids_found_this_iter st"
  by (induction ps arbitrary: st) (auto split: option.splits sum.splits)

lemma prime_loop_io:
  "current_io_snapshot (prime_loop env ps st) p
     = (if p \<in> set ps \<and> p \<in> process_objects_cache st
        then (case primed env p of Some c \<Rightarrow> Some c | None \<Rightarrow> current_io_snapshot st p)
        else current_io_snapshot st p)"
proof (induction ps arbitrary: st)
  case Nil
  then show ?case by simp
next
  case (Cons q ps)
  let ?st' = "(if q \<in> process_objects_cache st then
          (case prime_cpu_percent env q of
             Some e \<Rightarrow> st
           | None \<Rightarrow>
               (case prime_io_counters env q of
                  Inl e \<Rightarrow> st
                | Inr primed_io \<Rightarrow>
                    st\<lparr>previous_io_counters :=
                         (previous_io_counters st)(q \<mapsto> primed_io),
                       current_io_snapshot :=
                         (current_io_snapshot st)(q \<mapsto> primed_io)\<rparr>))
        else st)"
  have cache: "process_objects_cache ?st' = process_objects_cache st"
    by (simp split: option.splits sum.splits)
  have io: "current_io_snapshot ?st' p
      = (if p = q \<and> q \<in> process_objects_cache st
         then (case primed env p of Some c \<Rightarrow> Some c | None \<Rightarrow> current_io_snapshot st p)
         else current_io_snapshot st p)"
    by (simp add: primed_def split: option.splits sum.splits)
  have "current_io_snapshot (prime_loop env (q # ps) st) p
          = current_io_snapshot (prime_loop env ps ?st') p" by simp
  also have "\<dots> = (if p \<in> set ps \<and> p \<in> process_objects_cache ?st'
        then (case primed env p of Some c \<Rightarrow> Some c | None \<Rightarrow> current_io_snapshot ?st' p)
        else current_io_snapshot ?st' p)"
    by (rule Cons.IH)
  also have "\<dots> = (if p \<in> set (q # ps) \<and> p \<in> process_objects_cache st
        then (case primed env p of Some c \<Rightarrow> Some c | None \<Rightarrow> current_io_snapshot st p)
        else current_io_snapshot st p)"
    unfolding cache io by (auto split: option.splits)
  finally show ?case .
qed

lemma collect_phase_completed:
  assumes "collect_phase env cpu_cores procs st = (None, st')"
  obtains st1 where
    "collect_loop env cpu_cores procs
       (st\<lparr>current_snapshot_data := [], current_io_snapshot := Map.empty,
           pids_found_this_iter := {}, newly_cached_pids := []\<rparr>) = (None, st1)"
    and "current_snapshot_data st' = current_snapshot_data st1"
    and "previous_io_counters st'
           = current_io_snapshot (prime_loop env (newly_cached_pids st1) st1)"
  using assms
  by (auto simp: collect_phase_def Let_def prime_loop_unchanged split: prod.splits option.splits)

lemma collect_phase_snapshot_keys:
  assumes "collect_phase env cpu_cores procs st = (None, st')"
  shows "fst ` set (current_snapshot_data st') = set (enumerated_pids procs)"
    and "distinct (map fst (current_snapshot_data st'))"
proof -
  from assms obtain st1 where
    loop: "collect_loop env cpu_cores procs
       (st\<lparr>current_snapshot_data := [], current_io_snapshot := Map.empty,
           pids_found_this_iter := {}, newly_cached_pids := []\<rparr>) = (None, st1)"
    and snap: "current_snapshot_data st' = current_snapshot_data st1"
    by (rule collect_phase_completed)
  from collect_loop_keys[OF loop] snap
  show "fst ` set (current_snapshot_data st') = set (enumerated_pids procs)" by simp
  from collect_loop_distinct[OF loop] snap
  show "distinct (map fst (current_snapshot_data st'))" by simp
qed

lemma collect_phase_sample:
  assumes "collect_phase env cpu_cores procs st = (None, st')"
    and "distinct (enumerated_pids procs)"
    and "Some info \<in> set procs" and "info_pid info = Some p"
  shows "map_of (current_snapshot_data st') p
           = Some (expected_sample env cpu_cores (previous_io_counters st)
                     (p \<in> process_objects_cache st) info p)"
    and "acquire env (p \<in> process_objects_cache st) p \<noteq> Crashed"
proof -
  from assms(1) obtain st1 where
    loop: "collect_loop env cpu_cores procs
       (st\<lparr>current_snapshot_data := [], current_io_snapshot := Map.empty,
           pids_found_this_iter := {}, newly_cached_pids := []\<rparr>) = (None, st1)"
    and snap: "current_snapshot_data st' = current_snapshot_data st1"
    by (rule collect_phase_completed)
  from collect_loop_effect[OF loop assms(2,3,4)]
  show "acquire env (p \<in> process_objects_cache st) p \<noteq> Crashed"
    and "map_of (current_snapshot_data st') p
           = Some (expected_sample env cpu_cores (previous_io_counters st)
                     (p \<in> process_objects_cache st) info p)"
    unfolding snap
    by (auto simp: view_def expected_view_def expected_sample_def split: handle.splits)
qed

lemma collect_phase_baseline:
  assumes "collect_phase env cpu_cores procs st = (None, st')"
    and "distinct (enumerated_pids procs)"
  shows "previous_io_counters st' p
           = (if p \<in> set (enumerated_pids procs)
              then cycle_baseline env (p \<in> process_objects_cache st) p else None)"
proof -
  let ?st0 = "st\<lparr>current_snapshot_data := [], current_io_snapshot := Map.empty,
           pids_found_this_iter := {}, newly_cached_pids := []\<rparr>"
  from assms(1) obtain st1 where
    loop: "collect_loop env cpu_cores procs ?st0 = (None, st1)"
    and prev: "previous_io_counters st'
           = current_io_snapshot (prime_loop env (newly_cached_pids st1) st1)"
    by (rule collect_phase_completed)
  have v0: "view ?st0 p = (None, None, p \<in> process_objects_cache st, False)"
    by (simp add: view_def)
  show ?thesis
  proof (cases "p \<in> set (enumerated_pids procs)")
    case False
    from collect_loop_frame[OF loop False] v0
    have "current_io_snapshot st1 p = None" "p \<notin> set (newly_cached_pids st1)"
      by (simp_all add: view_def)
    with False show ?thesis by (simp add: prev prime_loop_io)
  next
    case True
    then obtain info where info: "Some info \<in> set procs" "info_pid info = Some p"
      by (auto simp: set_enumerated_pids pid_of_def split: option.splits)
    from collect_loop_effect[OF loop assms(2) info] v0
    have v1: "view st1 p = expected_view env cpu_cores (previous_io_counters st) info p
                (None, None, p \<in> process_objects_cache st, False)"
      and nc: "acquire env (p \<in> process_objects_cache st) p \<noteq> Crashed"
      by simp_all
    show ?thesis
    proof (cases "acquire env (p \<in> process_objects_cache st) p")
      case Reused
      with v1 have "current_io_snapshot st1 p = main_counters env p"
        "p \<notin> set (newly_cached_pids st1)"
        by (auto simp: view_def expected_view_def split: option.splits)
      with True Reused show ?thesis
        by (simp add: prev prime_loop_io cycle_baseline_def)
    next
      case Fresh
      with v1 have "current_io_snapshot st1 p = main_counters env p"
        "p \<in> set (newly_cached_pids st1)" "p \<in> process_objects_cache st1"
        by (auto simp: view_def expected_view_def split: option.splits)
      with True Fresh show ?thesis
        by (auto simp: prev prime_loop_io cycle_baseline_def primed_def
              split: option.splits sum.splits)
    next
      case Lost
      with v1 have "current_io_snapshot st1 p = None" "p \<notin> process_objects_cache st1"
        by (auto simp: view_def expected_view_def)
      with True Lost show ?thesis
        by (simp add: prev prime_loop_io cycle_baseline_def)
    next
      case Crashed
      with nc show ?thesis by simp
    qed
  qed
qed

lemma abandoned_pass_keeps_cache:
  assumes "collect_phase env cpu_cores procs st = (Some e, st')"
  shows "previous_io_counters st' = previous_io_counters st"
proof -
  let ?st0 = "st\<lparr>current_snapshot_data := [], current_io_snapshot := Map.empty,
           pids_found_this_iter := {}, newly_cached_pids := []\<rparr>"
  obtain r st1 where loop: "collect_loop env cpu_cores procs ?st0 = (r, st1)"
    by (cases "collect_loop env cpu_cores procs ?st0")
  with assms have "st' = st1"
    by (cases r) (auto simp: collect_phase_def Let_def)
  with collect_loop_previous[OF loop] show ?thesis by simp
qed


lemma process_proc_fst:
  "(fst (process_proc env cpu_cores proc st) = None)
     = (case pid_of proc of
          None \<Rightarrow> True
        | Some p \<Rightarrow> acquire env (p \<in> process_objects_cache st) p \<noteq> Crashed)"
  by (auto simp: process_proc_def pid_of_def acquire_def Let_def split: option.splits)

lemma collect_loop_completes:
  "distinct (enumerated_pids procs)
     \<Longrightarrow> (fst (collect_loop env cpu_cores procs st) = None)
         = (\<forall>p \<in> set (enumerated_pids procs).
              acquire env (p \<in> process_objects_cache st) p \<noteq> Crashed)"
proof (induction procs arbitrary: st)
  case Nil
  then show ?case by (simp add: enumerated_pids_Nil)
next
  case (Cons proc procs)
  let ?st' = "snd (process_proc env cpu_cores proc st)"
  from Cons.prems have d: "distinct (enumerated_pids procs)"
    by (auto simp: enumerated_pids_Cons split: option.splits)
  have same: "(q \<in> process_objects_cache ?st') = (q \<in> process_objects_cache st)"
    if "q \<in> set (enumerated_pids procs)" for q
  proof -
    from that Cons.prems have "pid_of proc \<noteq> Some q"
      by (auto simp: enumerated_pids_Cons)
    from process_proc_frame[OF this, of env cpu_cores st] show ?thesis by (simp add: view_def)
  qed
  show ?case
  proof (cases "fst (process_proc env cpu_cores proc st)")
    case (Some e)
    then have "fst (collect_loop env cpu_cores (proc # procs) st) \<noteq> None"
      by (auto split: prod.splits)
    moreover from Some obtain p where "pid_of proc = Some p"
      "acquire env (p \<in> process_objects_cache st) p = Crashed"
      using process_proc_fst[of env cpu_cores proc st] by (auto split: option.splits)
    ultimately show ?thesis by (auto simp: enumerated_pids_Cons)
  next
    case None
    then have "fst (collect_loop env cpu_cores (proc # procs) st)
                 = fst (collect_loop env cpu_cores procs ?st')"
      by (auto split: prod.splits)
    also have "(\<dots> = None) = (\<forall>p \<in> set (enumerated_pids procs).
              acquire env (p \<in> process_objects_cache ?st') p \<noteq> Crashed)"
      by (rule Cons.IH[OF d])
    also have "\<dots> = (\<forall>p \<in> set (enumerated_pids procs).
              acquire env (p \<in> process_objects_cache st) p \<noteq> Crashed)"
      using same by simp
    finally show ?thesis
      using None process_proc_fst[of env cpu_cores proc st]
      by (auto simp: enumerated_pids_Cons split: option.splits)
  qed
qed

lemma collect_phase_completes:
  assumes "distinct (enumerated_pids procs)"
  shows "(fst (collect_phase env cpu_cores procs st) = None)
     = (\<forall>p \<in> set (enumerated_pids procs).
          acquire env (p \<in> process_objects_cache st) p \<noteq> Crashed)"
proof -
  let ?st0 = "st\<lparr>current_snapshot_data := [], current_io_snapshot := Map.empty,
           pids_found_this_iter := {}, newly_cached_pids := []\<rparr>"
  have "fst (collect_phase env cpu_cores procs st) = fst (collect_loop env cpu_cores procs ?st0)"
    by (auto simp: collect_phase_def Let_def split: prod.splits option.splits)
  then show ?thesis
    using collect_loop_completes[OF assms, of env cpu_cores ?st0] by simp
qed

lemma fetch_details_cpu:
  "cpu_percent (fst (fetch_details env cpu_cores prev info p))
     = (case cpu_percent_call env p of
          Inl e \<Rightarrow> 0
        | Inr raw \<Rightarrow> min 100 (if cpu_cores > 0 then raw / real_of_int cpu_cores else raw))"
  by (auto simp: fetch_details_def fetch_cpu_def Let_def split: prod.splits sum.splits)

lemma fetch_details_mem:
  "mem_ws_kb (fst (fetch_details env cpu_cores prev info p))
     = (case memory_info_rss env p of Inl e \<Rightarrow> 0 | Inr rss \<Rightarrow> rss div 1024)"
  by (auto simp: fetch_details_def fetch_mem_def Let_def split: prod.splits sum.splits)

lemma fetch_details_deltas:
  "delta_read_bytes (fst (fetch_details env cpu_cores prev info p))
     = (case io_counters_call env p of
          Inl e \<Rightarrow> 0
        | Inr cur \<Rightarrow> (case prev p of None \<Rightarrow> 0
                      | Some prev_io \<Rightarrow> max 0 (read_bytes cur - read_bytes prev_io)))"
  "delta_write_bytes (fst (fetch_details env cpu_cores prev info p))
     = (case io_counters_call env p of
          Inl e \<Rightarrow> 0
        | Inr cur \<Rightarrow> (case prev p of None \<Rightarrow> 0
                      | Some prev_io \<Rightarrow> max 0 (write_bytes cur - write_bytes prev_io)))"
  by (auto simp: fetch_details_def fetch_io_def Let_def
           split: prod.splits sum.splits option.splits)


lemma snd_fetch_cpu:
  "snd (fetch_cpu env cpu_cores p st)
     = (case cpu_percent_call env p of
          Inr raw \<Rightarrow> st
        | Inl e \<Rightarrow> if not_in st [''terminated'', ''access denied''] then Some ''cpu error'' else st)"
  by (simp add: fetch_cpu_def split: sum.splits)

lemma snd_fetch_mem:
  "snd (fetch_mem env p st)
     = (case memory_info_rss env p of
          Inr rss \<Rightarrow> st
        | Inl e \<Rightarrow> if not_in st [''terminated'', ''access denied'', ''cpu error'']
                  then Some ''mem error'' else st)"
  by (simp add: fetch_mem_def split: sum.splits)

lemma status_fetch_io:
  "snd (snd (snd (fetch_io env prev p st)))
     = (case io_counters_call env p of
          Inr c \<Rightarrow> st
        | Inl e \<Rightarrow>
            if e = OtherException then
              (if not_in st [''terminated'', ''access denied'', ''cpu error'', ''mem error'',
                     ''io error'']
               then Some ''fetch error'' else st)
            else
              (if not_in st [''terminated'', ''access denied'', ''cpu error'', ''mem error'']
               then Some ''io error'' else st))"
  by (simp add: fetch_io_def split: sum.splits option.splits)

lemma status_fetch_details:
  "status (fst (fetch_details env cpu_cores prev info p))
     = snd (snd (snd (fetch_io env prev p
         (snd (fetch_mem env p
            (snd (fetch_cpu env cpu_cores p (entry_get (info_status info) ''N/A''))))))))"
  by (simp add: fetch_details_def Let_def split: prod.splits)

lemma not_in_mono: "set xs \<subseteq> set ys \<Longrightarrow> not_in st ys \<Longrightarrow> not_in st xs"
  by (auto simp: not_in_def split: option.splits)

lemma not_in_kept:
  "st = Some s \<Longrightarrow> s \<in> set xs \<Longrightarrow> \<not> not_in st xs"
  by (simp add: not_in_def)

lemma fetch_details_status_kept:
  assumes "entry_get (info_status info) ''N/A'' = Some ''terminated''
         \<or> entry_get (info_status info) ''N/A'' = Some ''access denied''"
  shows "status (fst (fetch_details env cpu_cores prev info p))
           = entry_get (info_status info) ''N/A''"
proof -
  let ?raw = "entry_get (info_status info) ''N/A''"
  from assms obtain s where s: "?raw = Some s" "s = ''terminated'' \<or> s = ''access denied''"
    by blast
  have k2: "\<not> not_in ?raw [''terminated'', ''access denied'']"
    using s by (auto simp: not_in_def)
  have k3: "\<not> not_in ?raw [''terminated'', ''access denied'', ''cpu error'']"
    using s by (auto simp: not_in_def)
  have k4: "\<not> not_in ?raw [''terminated'', ''access denied'', ''cpu error'', ''mem error'']"
    using s by (auto simp: not_in_def)
  have k5: "\<not> not_in ?raw [''terminated'', ''access denied'', ''cpu error'', ''mem error'',
                     ''io error'']"
    using s by (auto simp: not_in_def)
  have c: "snd (fetch_cpu env cpu_cores p ?raw) = ?raw"
    unfolding snd_fetch_cpu using k2 by (simp split: sum.splits)
  have m: "snd (fetch_mem env p ?raw) = ?raw"
    unfolding snd_fetch_mem using k3 by (simp split: sum.splits)
  have i: "snd (snd (snd (fetch_io env prev p ?raw))) = ?raw"
    unfolding status_fetch_io using k4 k5 by (simp split: sum.splits)
  show ?thesis
    unfolding status_fetch_details c m i ..
qed

lemma category_facts:
  "\<not> not_in (Some ''cpu error'') [''terminated'', ''access denied'', ''cpu error'']"
  "\<not> not_in (Some ''cpu error'') [''terminated'', ''access denied'', ''cpu error'', ''mem error'']"
  "\<not> not_in (Some ''cpu error'')
       [''terminated'', ''access denied'', ''cpu error'', ''mem error'', ''io error'']"
  "\<not> not_in (Some ''mem error'') [''terminated'', ''access denied'', ''cpu error'', ''mem error'']"
  "\<not> not_in (Some ''mem error'')
       [''terminated'', ''access denied'', ''cpu error'', ''mem error'', ''io error'']"
  by (simp_all add: not_in_def)

lemma fetch_details_status_first:
  assumes "not_in (entry_get (info_status info) ''N/A'')
             [''terminated'', ''access denied'', ''cpu error'', ''mem error'', ''io error'']"
  shows "status (fst (fetch_details env cpu_cores prev info p))
           = (case first_failure env p of
                Some category \<Rightarrow> Some category
              | None \<Rightarrow> entry_get (info_status info) ''N/A'')"
proof -
  let ?raw = "entry_get (info_status info) ''N/A''"
  have n2: "not_in ?raw [''terminated'', ''access denied'']"
    by (rule not_in_mono[OF _ assms]) auto
  have n3: "not_in ?raw [''terminated'', ''access denied'', ''cpu error'']"
    by (rule not_in_mono[OF _ assms]) auto
  have n4: "not_in ?raw [''terminated'', ''access denied'', ''cpu error'', ''mem error'']"
    by (rule not_in_mono[OF _ assms]) auto
  show ?thesis
  proof (cases "cpu_percent_call env p")
    case cpu: (Inl e)
    have c: "snd (fetch_cpu env cpu_cores p ?raw) = Some ''cpu error''"
      unfolding snd_fetch_cpu using cpu n2 by simp
    have m: "snd (fetch_mem env p (Some ''cpu error'')) = Some ''cpu error''"
      unfolding snd_fetch_mem using category_facts(1) by (simp split: sum.splits)
    have i: "snd (snd (snd (fetch_io env prev p (Some ''cpu error'')))) = Some ''cpu error''"
      unfolding status_fetch_io using category_facts(2,3) by (simp split: sum.splits)
    show ?thesis
      unfolding status_fetch_details c m i using cpu by (simp add: first_failure_def)
  next
    case cpu: (Inr raw)
    have c: "snd (fetch_cpu env cpu_cores p ?raw) = ?raw"
      unfolding snd_fetch_cpu using cpu by simp
    show ?thesis
    proof (cases "memory_info_rss env p")
      case mem: (Inl e)
      have m: "snd (fetch_mem env p ?raw) = Some ''mem error''"
        unfolding snd_fetch_mem using mem n3 by simp
      have i: "snd (snd (snd (fetch_io env prev p (Some ''mem error'')))) = Some ''mem error''"
        unfolding status_fetch_io using category_facts(4,5) by (simp split: sum.splits)
      show ?thesis
        unfolding status_fetch_details c m i using cpu mem by (simp add: first_failure_def)
    next
      case mem: (Inr rss)
      have m: "snd (fetch_mem env p ?raw) = ?raw"
        unfolding snd_fetch_mem using mem by simp
      have i: "snd (snd (snd (fetch_io env prev p ?raw)))
                 = (case io_counters_call env p of
                      Inr c \<Rightarrow> ?raw
                    | Inl e \<Rightarrow> if e = OtherException then Some ''fetch error''
                              else Some ''io error'')"
        unfolding status_fetch_io using n4 assms by (simp split: sum.splits)
      show ?thesis
        unfolding status_fetch_details c m i using cpu mem
        by (simp add: first_failure_def split: sum.splits)
    qed
  qed
qed


lemma expected_sample_lost:
  "acquire env c p = Lost \<Longrightarrow> expected_sample env cpu_cores prev c info p = minimal_entry info p"
  by (simp add: expected_sample_def)

lemma expected_sample_fetched:
  "acquire env c p \<noteq> Lost
     \<Longrightarrow> expected_sample env cpu_cores prev c info p = fst (fetch_details env cpu_cores prev info p)"
  by (simp add: expected_sample_def)

lemma minimal_entry_metrics:
  "cpu_percent (minimal_entry info p) = 0" "mem_ws_kb (minimal_entry info p) = 0"
  "delta_read_bytes (minimal_entry info p) = 0" "delta_write_bytes (minimal_entry info p) = 0"
  by (simp_all add: minimal_entry_def)

text \<open>
  Claim C2, as amended. In a pass that completes, every enumerated process that carries a
  pid has exactly one sample: the keys of the snapshot are distinct and are exactly the
  enumerated pids. When the process object cannot be obtained, all metrics of the sample
  are zero. When it is obtained, the metric of every failed fetch is zero; a status
  \<^verbatim>\<open>terminated\<close> or \<^verbatim>\<open>access denied\<close> reported by the enumeration is kept; and when the
  enumerated status is none of the reserved strings, the status is the category of the
  earliest failing fetch (\<^verbatim>\<open>cpu error\<close>, \<^verbatim>\<open>mem error\<close>, \<^verbatim>\<open>io error\<close> or \<^verbatim>\<open>fetch error\<close>),
  which no later failure overwrites, and the enumerated status when no fetch fails.
\<close>

theorem sampler_first_failure_wins:
  assumes fin: "collect_phase env cpu_cores procs st = (None, st')"
    and dist: "distinct (enumerated_pids procs)"
    and mem: "Some info \<in> set procs" and pid: "info_pid info = Some p"
  shows "\<exists>s. map_of (current_snapshot_data st') p = Some s
      \<and> distinct (map fst (current_snapshot_data st'))
      \<and> fst ` set (current_snapshot_data st') = set (enumerated_pids procs)
      \<and> (acquire env (p \<in> process_objects_cache st) p = Lost \<longrightarrow>
            cpu_percent s = 0 \<and> mem_ws_kb s = 0
            \<and> delta_read_bytes s = 0 \<and> delta_write_bytes s = 0)
      \<and> (acquire env (p \<in> process_objects_cache st) p \<noteq> Lost \<longrightarrow>
            (isl (cpu_percent_call env p) \<longrightarrow> cpu_percent s = 0)
          \<and> (isl (memory_info_rss env p) \<longrightarrow> mem_ws_kb s = 0)
          \<and> (isl (io_counters_call env p) \<longrightarrow>
                delta_read_bytes s = 0 \<and> delta_write_bytes s = 0)
          \<and> (entry_get (info_status info) ''N/A'' = Some ''terminated''
               \<or> entry_get (info_status info) ''N/A'' = Some ''access denied'' \<longrightarrow>
                status s = entry_get (info_status info) ''N/A'')
          \<and> (not_in (entry_get (info_status info) ''N/A'')
                 [''terminated'', ''access denied'', ''cpu error'', ''mem error'', ''io error'']
               \<longrightarrow> status s = (case first_failure env p of
                                 Some category \<Rightarrow> Some category
                               | None \<Rightarrow> entry_get (info_status info) ''N/A'')))"
proof -
  let ?c = "p \<in> process_objects_cache st"
  let ?s = "expected_sample env cpu_cores (previous_io_counters st) ?c info p"
  let ?fd = "fst (fetch_details env cpu_cores (previous_io_counters st) info p)"
  have look: "map_of (current_snapshot_data st') p = Some ?s"
    using collect_phase_sample(1)[OF fin dist mem pid] .
  have lost: "cpu_percent ?s = 0 \<and> mem_ws_kb ?s = 0
            \<and> delta_read_bytes ?s = 0 \<and> delta_write_bytes ?s = 0"
    if "acquire env ?c p = Lost"
    using that by (simp add: expected_sample_lost minimal_entry_metrics)
  have eq: "?s = ?fd" if "acquire env ?c p \<noteq> Lost"
    using that by (rule expected_sample_fetched)
  have cpu: "isl (cpu_percent_call env p) \<longrightarrow> cpu_percent ?fd = 0"
    by (cases "cpu_percent_call env p") (simp_all add: fetch_details_cpu)
  have memo: "isl (memory_info_rss env p) \<longrightarrow> mem_ws_kb ?fd = 0"
    by (cases "memory_info_rss env p") (simp_all add: fetch_details_mem)
  have io: "isl (io_counters_call env p) \<longrightarrow>
              delta_read_bytes ?fd = 0 \<and> delta_write_bytes ?fd = 0"
    by (cases "io_counters_call env p") (simp_all add: fetch_details_deltas)
  have kept: "entry_get (info_status info) ''N/A'' = Some ''terminated''
               \<or> entry_get (info_status info) ''N/A'' = Some ''access denied'' \<longrightarrow>
                status ?fd = entry_get (info_status info) ''N/A''"
    using fetch_details_status_kept by blast
  have first: "not_in (entry_get (info_status info) ''N/A'')
                 [''terminated'', ''access denied'', ''cpu error'', ''mem error'', ''io error'']
               \<longrightarrow> status ?fd = (case first_failure env p of
                                 Some category \<Rightarrow> Some category
                               | None \<Rightarrow> entry_get (info_status info) ''N/A'')"
    using fetch_details_status_first by blast
  show ?thesis
  proof (intro exI[of _ ?s] conjI)
    show "map_of (current_snapshot_data st') p = Some ?s" by (rule look)
    show "distinct (map fst (current_snapshot_data st'))"
      by (rule collect_phase_snapshot_keys(2)[OF fin])
    show "fst ` set (current_snapshot_data st') = set (enumerated_pids procs)"
      by (rule collect_phase_snapshot_keys(1)[OF fin])
    show "acquire env ?c p = Lost \<longrightarrow>
            cpu_percent ?s = 0 \<and> mem_ws_kb ?s = 0
            \<and> delta_read_bytes ?s = 0 \<and> delta_write_bytes ?s = 0"
      using lost by blast
    show "acquire env ?c p \<noteq> Lost \<longrightarrow>
            (isl (cpu_percent_call env p) \<longrightarrow> cpu_percent ?s = 0)
          \<and> (isl (memory_info_rss env p) \<longrightarrow> mem_ws_kb ?s = 0)
          \<and> (isl (io_counters_call env p) \<longrightarrow>
                delta_read_bytes ?s = 0 \<and> delta_write_bytes ?s = 0)
          \<and> (entry_get (info_status info) ''N/A'' = Some ''terminated''
               \<or> entry_get (info_status info) ''N/A'' = Some ''access denied'' \<longrightarrow>
                status ?s = entry_get (info_status info) ''N/A'')
          \<and> (not_in (entry_get (info_status info) ''N/A'')
                 [''terminated'', ''access denied'', ''cpu error'', ''mem error'', ''io error'']
               \<longrightarrow> status ?s = (case first_failure env p of
                                 Some category \<Rightarrow> Some category
                               | None \<Rightarrow> entry_get (info_status info) ''N/A''))"
    proof
      assume "acquire env ?c p \<noteq> Lost"
      from eq[OF this] cpu memo io kept first show
        "(isl (cpu_percent_call env p) \<longrightarrow> cpu_percent ?s = 0)
          \<and> (isl (memory_info_rss env p) \<longrightarrow> mem_ws_kb ?s = 0)
          \<and> (isl (io_counters_call env p) \<longrightarrow>
                delta_read_bytes ?s = 0 \<and> delta_write_bytes ?s = 0)
          \<and> (entry_get (info_status info) ''N/A'' = Some ''terminated''
               \<or> entry_get (info_status info) ''N/A'' = Some ''access denied'' \<longrightarrow>
                status ?s = entry_get (info_status info) ''N/A'')
          \<and> (not_in (entry_get (info_status info) ''N/A'')
                 [''terminated'', ''access denied'', ''cpu error'', ''mem error'', ''io error'']
               \<longrightarrow> status ?s = (case first_failure env p of
                                 Some category \<Rightarrow> Some category
                               | None \<Rightarrow> entry_get (info_status info) ''N/A''))"
        by simp
    qed
  qed
qed

text \<open>
  Claim C4, as amended. For a pid without an entry in \<^verbatim>\<open>previous_io_counters\<close>: in a pass
  that completes, the sample has both byte deltas zero, whatever counters were fetched,
  and the entry left for the next pass is the counters of the disk block when the object
  was reused or a priming call fails, the counters that the priming block fetches again
  (not those fetched for the sample) when the object is new and priming succeeds, and
  none when the object is lost or no fetch succeeds. A pass that is abandoned leaves the
  cache as it was.
\<close>

theorem first_observation_zero_delta:
  assumes run: "collect_phase env cpu_cores procs st = (r, st')"
    and dist: "distinct (enumerated_pids procs)"
    and mem: "Some info \<in> set procs" and pid: "info_pid info = Some p"
    and first: "previous_io_counters st p = None"
  shows "(r \<noteq> None \<longrightarrow> previous_io_counters st' = previous_io_counters st)
     \<and> (r = None \<longrightarrow>
          (\<exists>s. map_of (current_snapshot_data st') p = Some s
               \<and> delta_read_bytes s = 0 \<and> delta_write_bytes s = 0)
        \<and> previous_io_counters st' p = cycle_baseline env (p \<in> process_objects_cache st) p
        \<and> (\<forall>c. acquire env (p \<in> process_objects_cache st) p = Reused
                 \<and> io_counters_call env p = Inr c \<longrightarrow> previous_io_counters st' p = Some c)
        \<and> (\<forall>c'. acquire env (p \<in> process_objects_cache st) p = Fresh
                 \<and> prime_cpu_percent env p = None \<and> prime_io_counters env p = Inr c'
                 \<longrightarrow> previous_io_counters st' p = Some c')
        \<and> (\<forall>c. acquire env (p \<in> process_objects_cache st) p = Fresh
                 \<and> (prime_cpu_percent env p \<noteq> None \<or> isl (prime_io_counters env p))
                 \<and> io_counters_call env p = Inr c \<longrightarrow> previous_io_counters st' p = Some c)
        \<and> (acquire env (p \<in> process_objects_cache st) p = Lost
             \<or> isl (io_counters_call env p)
                \<and> (acquire env (p \<in> process_objects_cache st) p = Reused
                    \<or> prime_cpu_percent env p \<noteq> None \<or> isl (prime_io_counters env p))
             \<longrightarrow> previous_io_counters st' p = None))"
proof (cases r)
  case (Some e)
  with run have "previous_io_counters st' = previous_io_counters st"
    by (simp add: abandoned_pass_keeps_cache)
  with Some show ?thesis by simp
next
  case None
  note fin = run[unfolded None]
  let ?c = "p \<in> process_objects_cache st"
  let ?s = "expected_sample env cpu_cores (previous_io_counters st) ?c info p"
  have look: "map_of (current_snapshot_data st') p = Some ?s"
    using collect_phase_sample(1)[OF fin dist mem pid] .
  have nc: "acquire env ?c p \<noteq> Crashed"
    using collect_phase_sample(2)[OF fin dist mem pid] .
  have zero: "delta_read_bytes ?s = 0 \<and> delta_write_bytes ?s = 0"
    using first
    by (cases "acquire env ?c p = Lost")
       (auto simp: expected_sample_def minimal_entry_metrics fetch_details_deltas
             split: sum.splits)
  have base: "previous_io_counters st' p = cycle_baseline env ?c p"
    using collect_phase_baseline[OF fin dist, of p] in_enumerated_pids[OF mem pid] by simp
  have reused: "\<forall>c. acquire env ?c p = Reused \<and> io_counters_call env p = Inr c
                  \<longrightarrow> previous_io_counters st' p = Some c"
    unfolding base by (auto simp: cycle_baseline_def main_counters_def)
  have fresh1: "\<forall>c'. acquire env ?c p = Fresh
                 \<and> prime_cpu_percent env p = None \<and> prime_io_counters env p = Inr c'
                 \<longrightarrow> previous_io_counters st' p = Some c'"
    unfolding base by (auto simp: cycle_baseline_def)
  have fresh2: "\<forall>c. acquire env ?c p = Fresh
                 \<and> (prime_cpu_percent env p \<noteq> None \<or> isl (prime_io_counters env p))
                 \<and> io_counters_call env p = Inr c \<longrightarrow> previous_io_counters st' p = Some c"
    unfolding base
    by (auto simp: cycle_baseline_def main_counters_def split: option.splits sum.splits)
  have none: "acquire env ?c p = Lost
             \<or> isl (io_counters_call env p)
                \<and> (acquire env ?c p = Reused
                    \<or> prime_cpu_percent env p \<noteq> None \<or> isl (prime_io_counters env p))
             \<longrightarrow> previous_io_counters st' p = None"
    unfolding base using nc
    by (cases "acquire env ?c p")
       (auto simp: cycle_baseline_def main_counters_def split: option.splits sum.splits)
  from look zero base reused fresh1 fresh2 none None show ?thesis by blast
qed

text \<open>
  Claim C5. In a pass that completes, the byte deltas of every sample are never negative,
  and for a pid with a cached entry whose counters are fetched they are
  \<open>max 0 (current - previous)\<close>, for reads and for writes.
\<close>

theorem io_delta_clamped:
  assumes fin: "collect_phase env cpu_cores procs st = (None, st')"
    and dist: "distinct (enumerated_pids procs)"
    and mem: "Some info \<in> set procs" and pid: "info_pid info = Some p"
  shows "\<exists>s. map_of (current_snapshot_data st') p = Some s
      \<and> 0 \<le> delta_read_bytes s \<and> 0 \<le> delta_write_bytes s
      \<and> (\<forall>prev_io current_io.
            previous_io_counters st p = Some prev_io
            \<and> io_counters_call env p = Inr current_io
            \<and> acquire env (p \<in> process_objects_cache st) p \<noteq> Lost \<longrightarrow>
              delta_read_bytes s = max 0 (read_bytes current_io - read_bytes prev_io)
            \<and> delta_write_bytes s = max 0 (write_bytes current_io - write_bytes prev_io))"
proof -
  let ?c = "p \<in> process_objects_cache st"
  let ?s = "expected_sample env cpu_cores (previous_io_counters st) ?c info p"
  have look: "map_of (current_snapshot_data st') p = Some ?s"
    using collect_phase_sample(1)[OF fin dist mem pid] .
  have nonneg: "0 \<le> delta_read_bytes ?s \<and> 0 \<le> delta_write_bytes ?s"
    by (cases "acquire env ?c p = Lost")
       (auto simp: expected_sample_def minimal_entry_metrics fetch_details_deltas
             split: sum.splits option.splits)
  have exact: "\<forall>prev_io current_io.
            previous_io_counters st p = Some prev_io
            \<and> io_counters_call env p = Inr current_io
            \<and> acquire env ?c p \<noteq> Lost \<longrightarrow>
              delta_read_bytes ?s = max 0 (read_bytes current_io - read_bytes prev_io)
            \<and> delta_write_bytes ?s = max 0 (write_bytes current_io - write_bytes prev_io)"
    by (auto simp: expected_sample_def fetch_details_deltas)
  from look nonneg exact show ?thesis by blast
qed

text \<open>
  Claim C7, as amended. In a pass that completes, the stored CPU share is at most 100; on
  an obtained object whose CPU call returns, it is the raw percentage divided by the core
  count, capped at 100 from above only; it is at least 0 whenever the raw percentage is
  not negative; a failed CPU call stores 0, and so does a process whose object cannot be
  obtained.
\<close>

theorem stored_cpu_share_bounds:
  assumes fin: "collect_phase env cpu_cores procs st = (None, st')"
    and dist: "distinct (enumerated_pids procs)"
    and mem: "Some info \<in> set procs" and pid: "info_pid info = Some p"
  shows "\<exists>s. map_of (current_snapshot_data st') p = Some s
      \<and> cpu_percent s \<le> 100
      \<and> ((\<forall>raw. cpu_percent_call env p = Inr raw \<longrightarrow> 0 \<le> raw) \<longrightarrow> 0 \<le> cpu_percent s)
      \<and> (\<forall>raw. cpu_percent_call env p = Inr raw
               \<and> acquire env (p \<in> process_objects_cache st) p \<noteq> Lost \<longrightarrow>
               cpu_percent s
                 = min 100 (if cpu_cores > 0 then raw / real_of_int cpu_cores else raw))
      \<and> (isl (cpu_percent_call env p) \<longrightarrow> cpu_percent s = 0)
      \<and> (acquire env (p \<in> process_objects_cache st) p = Lost \<longrightarrow> cpu_percent s = 0)"
proof -
  let ?c = "p \<in> process_objects_cache st"
  let ?s = "expected_sample env cpu_cores (previous_io_counters st) ?c info p"
  have look: "map_of (current_snapshot_data st') p = Some ?s"
    using collect_phase_sample(1)[OF fin dist mem pid] .
  have upper: "cpu_percent ?s \<le> 100"
    by (cases "acquire env ?c p = Lost")
       (auto simp: expected_sample_def minimal_entry_metrics fetch_details_cpu
             split: sum.splits)
  have lower: "(\<forall>raw. cpu_percent_call env p = Inr raw \<longrightarrow> 0 \<le> raw) \<longrightarrow> 0 \<le> cpu_percent ?s"
    by (cases "acquire env ?c p = Lost")
       (auto simp: expected_sample_def minimal_entry_metrics fetch_details_cpu
             split: sum.splits)
  have exact: "\<forall>raw. cpu_percent_call env p = Inr raw \<and> acquire env ?c p \<noteq> Lost \<longrightarrow>
               cpu_percent ?s
                 = min 100 (if cpu_cores > 0 then raw / real_of_int cpu_cores else raw)"
    by (auto simp: expected_sample_def fetch_details_cpu)
  have failed: "isl (cpu_percent_call env p) \<longrightarrow> cpu_percent ?s = 0"
    by (cases "acquire env ?c p = Lost"; cases "cpu_percent_call env p")
       (simp_all add: expected_sample_def minimal_entry_metrics fetch_details_cpu)
  have lost: "acquire env ?c p = Lost \<longrightarrow> cpu_percent ?s = 0"
    by (simp add: expected_sample_def minimal_entry_metrics)
  from look upper lower exact failed lost show ?thesis by blast
qed

text \<open>
  Claim C8, as amended. At the end of a pass that completes, every key of
  \<^verbatim>\<open>previous_io_counters\<close> is a pid enumerated in this pass, every entry holds counters that
  a call of this pass returned, pids that are no longer enumerated have no entry, and the
  new cache does not depend on the old one. A pass that is abandoned leaves the cache as
  it was.
\<close>

theorem counter_cache_replaced:
  assumes run: "collect_phase env cpu_cores procs st = (r, st')"
    and dist: "distinct (enumerated_pids procs)"
  shows "(r \<noteq> None \<longrightarrow> previous_io_counters st' = previous_io_counters st)
      \<and> (r = None \<longrightarrow>
           dom (previous_io_counters st') \<subseteq> set (enumerated_pids procs)
         \<and> (\<forall>p c. previous_io_counters st' p = Some c \<longrightarrow>
               io_counters_call env p = Inr c \<or> prime_io_counters env p = Inr c)
         \<and> (\<forall>p. previous_io_counters st' p
               = (if p \<in> set (enumerated_pids procs)
                  then cycle_baseline env (p \<in> process_objects_cache st) p else None))
         \<and> (\<forall>older. previous_io_counters
               (snd (collect_phase env cpu_cores procs (st\<lparr>previous_io_counters := older\<rparr>)))
               = previous_io_counters st'))"
proof (cases r)
  case (Some e)
  with run have "previous_io_counters st' = previous_io_counters st"
    by (simp add: abandoned_pass_keeps_cache)
  with Some show ?thesis by simp
next
  case None
  note fin = run[unfolded None]
  have closed: "previous_io_counters st' p
             = (if p \<in> set (enumerated_pids procs)
                then cycle_baseline env (p \<in> process_objects_cache st) p else None)" for p
    by (rule collect_phase_baseline[OF fin dist])
  have keys: "dom (previous_io_counters st') \<subseteq> set (enumerated_pids procs)"
    using closed by (auto split: if_splits)
  have fetched: "\<forall>p c. previous_io_counters st' p = Some c \<longrightarrow>
             io_counters_call env p = Inr c \<or> prime_io_counters env p = Inr c"
    unfolding closed
    by (auto simp: cycle_baseline_def main_counters_def
             split: if_splits handle.splits option.splits sum.splits)
  have indep: "previous_io_counters
             (snd (collect_phase env cpu_cores procs (st\<lparr>previous_io_counters := older\<rparr>)))
             = previous_io_counters st'" for older
  proof -
    let ?st2 = "st\<lparr>previous_io_counters := older\<rparr>"
    have "fst (collect_phase env cpu_cores procs st) = None" using fin by simp
    then have "fst (collect_phase env cpu_cores procs ?st2) = None"
      unfolding collect_phase_completes[OF dist] by simp
    then have fin2: "collect_phase env cpu_cores procs ?st2
                        = (None, snd (collect_phase env cpu_cores procs ?st2))"
      by (metis prod.collapse)
    show ?thesis
    proof
      fix p
      show "previous_io_counters (snd (collect_phase env cpu_cores procs ?st2)) p
              = previous_io_counters st' p"
        unfolding collect_phase_baseline[OF fin2 dist] closed by simp
    qed
  qed
  from keys fetched closed indep None show ?thesis by blast
qed

lemma scenario_enumerated: "enumerated_pids scenario_procs = [5, 6, 7, 8, 9]"
  by (simp add: enumerated_pids_def scenario_procs_def scenario_info_def pid_of_def)

lemma scenario_acquire:
  "acquire scenario_env (5 \<in> process_objects_cache scenario_state) 5 = Reused"
  "acquire scenario_env (6 \<in> process_objects_cache scenario_state) 6 = Lost"
  "acquire scenario_env (7 \<in> process_objects_cache scenario_state) 7 = Fresh"
  "acquire scenario_env (8 \<in> process_objects_cache scenario_state) 8 = Fresh"
  "acquire scenario_env (9 \<in> process_objects_cache scenario_state) 9 = Reused"
  by (simp_all add: acquire_def scenario_env_def scenario_state_def)

lemma scenario_completes:
  "collect_phase scenario_env 4 scenario_procs scenario_state
     = (None, snd (collect_phase scenario_env 4 scenario_procs scenario_state))"
proof -
  have d: "distinct (enumerated_pids scenario_procs)" by (simp add: scenario_enumerated)
  have "fst (collect_phase scenario_env 4 scenario_procs scenario_state) = None"
    using collect_phase_completes[OF d, of scenario_env 4 scenario_state]
    by (simp add: scenario_enumerated scenario_acquire)
  then show ?thesis by (metis prod.collapse)
qed

lemma scenario_member: "p \<in> {5, 6, 7, 8, 9} \<Longrightarrow> Some (scenario_info p) \<in> set scenario_procs"
  by (auto simp: scenario_procs_def)

lemma abandoned_enumerated: "enumerated_pids abandoned_procs = [6, 7]"
  by (simp add: enumerated_pids_def abandoned_procs_def scenario_info_def pid_of_def)

lemma abandoned_run:
  "fst (collect_phase abandoned_env 4 abandoned_procs scenario_state) = Some OSError"
  by (simp add: collect_phase_def process_proc_def abandoned_env_def abandoned_procs_def
        scenario_info_def scenario_env_def scenario_state_def Let_def)

lemma abandoned_member: "p \<in> {6, 7} \<Longrightarrow> Some (scenario_info p) \<in> set abandoned_procs"
  by (auto simp: abandoned_procs_def)

lemma cpu_fail_completes:
  "collect_phase cpu_fail_env 4 scenario_procs scenario_state
     = (None, snd (collect_phase cpu_fail_env 4 scenario_procs scenario_state))"
proof -
  have d: "distinct (enumerated_pids scenario_procs)" by (simp add: scenario_enumerated)
  have a: "acquire cpu_fail_env c p = acquire scenario_env c p" for c p
    by (simp add: acquire_def cpu_fail_env_def)
  have "fst (collect_phase cpu_fail_env 4 scenario_procs scenario_state) = None"
    using collect_phase_completes[OF d, of cpu_fail_env 4 scenario_state]
    by (simp add: scenario_enumerated a scenario_acquire)
  then show ?thesis by (metis prod.collapse)
qed

theorem sampler_first_failure_wins_witness:
  "\<exists>s. map_of (current_snapshot_data
                 (snd (collect_phase scenario_env 4 scenario_procs scenario_state))) 8 = Some s
      \<and> mem_ws_kb s = 0 \<and> delta_read_bytes s = 0 \<and> delta_write_bytes s = 0
      \<and> status s = Some ''mem error''"
proof -
  have d: "distinct (enumerated_pids scenario_procs)" by (simp add: scenario_enumerated)
  have m: "Some (scenario_info 8) \<in> set scenario_procs" by (simp add: scenario_member)
  have p: "info_pid (scenario_info 8) = Some 8" by (simp add: scenario_info_def)
  have raw: "entry_get (info_status (scenario_info 8)) ''N/A'' = Some ''running''"
    by (simp add: scenario_info_def entry_get_def)
  have ni: "not_in (entry_get (info_status (scenario_info 8)) ''N/A'')
              [''terminated'', ''access denied'', ''cpu error'', ''mem error'', ''io error'']"
    unfolding raw by (simp add: not_in_def)
  have ff: "first_failure scenario_env 8 = Some ''mem error''"
    by (simp add: first_failure_def scenario_env_def)
  have fails: "isl (memory_info_rss scenario_env 8)" "isl (io_counters_call scenario_env 8)"
    by (simp_all add: scenario_env_def)
  from sampler_first_failure_wins[OF scenario_completes d m p] scenario_acquire(4) ni ff fails
  show ?thesis by auto
qed

text \<open>
  The claim as stated fails for pid \<open>6\<close>: obtaining its process object fails with
  \<^verbatim>\<open>AccessDenied\<close>, and the sample keeps the enumerated status \<^verbatim>\<open>running\<close>, which is not
  a failure category.
\<close>

theorem sampler_status_not_failure_category:
  "map_option status
     (map_of (current_snapshot_data
                (snd (collect_phase scenario_env 4 scenario_procs scenario_state))) 6)
     = Some (Some ''running'')
   \<and> open_process scenario_env 6 = Some AccessDenied
   \<and> 6 \<notin> process_objects_cache scenario_state
   \<and> ''running'' \<notin> set [''access denied'', ''cpu error'', ''mem error'', ''io error'',
                          ''fetch error'']"
proof -
  have d: "distinct (enumerated_pids scenario_procs)" by (simp add: scenario_enumerated)
  have m: "Some (scenario_info 6) \<in> set scenario_procs" by (simp add: scenario_member)
  have p: "info_pid (scenario_info 6) = Some 6" by (simp add: scenario_info_def)
  have "map_of (current_snapshot_data
                (snd (collect_phase scenario_env 4 scenario_procs scenario_state))) 6
          = Some (minimal_entry (scenario_info 6) 6)"
    using collect_phase_sample(1)[OF scenario_completes d m p]
    by (simp add: expected_sample_def scenario_acquire)
  then show ?thesis
    by (simp add: minimal_entry_def scenario_info_def entry_get_def scenario_env_def
          scenario_state_def)
qed

theorem first_observation_zero_delta_witness:
  "(\<exists>s7 s9.
      previous_io_counters scenario_state 7 = None
    \<and> previous_io_counters scenario_state 9 = None
    \<and> map_of (current_snapshot_data
                 (snd (collect_phase scenario_env 4 scenario_procs scenario_state))) 7 = Some s7
    \<and> delta_read_bytes s7 = 0 \<and> delta_write_bytes s7 = 0
    \<and> previous_io_counters
          (snd (collect_phase scenario_env 4 scenario_procs scenario_state)) 7
        = Some \<lparr>read_bytes = 150, write_bytes = 250\<rparr>
    \<and> map_of (current_snapshot_data
                 (snd (collect_phase scenario_env 4 scenario_procs scenario_state))) 9 = Some s9
    \<and> delta_read_bytes s9 = 0 \<and> delta_write_bytes s9 = 0
    \<and> previous_io_counters
          (snd (collect_phase scenario_env 4 scenario_procs scenario_state)) 9
        = Some \<lparr>read_bytes = 100, write_bytes = 200\<rparr>)
   \<and> fst (collect_phase abandoned_env 4 abandoned_procs scenario_state) = Some OSError
   \<and> previous_io_counters (snd (collect_phase abandoned_env 4 abandoned_procs scenario_state))
       = previous_io_counters scenario_state"
proof -
  have d: "distinct (enumerated_pids scenario_procs)" by (simp add: scenario_enumerated)
  have m: "Some (scenario_info 7) \<in> set scenario_procs"
    "Some (scenario_info 9) \<in> set scenario_procs" by (simp_all add: scenario_member)
  have p: "info_pid (scenario_info 7) = Some 7" "info_pid (scenario_info 9) = Some 9"
    by (simp_all add: scenario_info_def)
  have f: "previous_io_counters scenario_state 7 = None"
    "previous_io_counters scenario_state 9 = None"
    by (simp_all add: scenario_state_def)
  have pr: "prime_cpu_percent scenario_env 7 = None"
    "prime_io_counters scenario_env 7 = Inr \<lparr>read_bytes = 150, write_bytes = 250\<rparr>"
    "io_counters_call scenario_env 9 = Inr \<lparr>read_bytes = 100, write_bytes = 200\<rparr>"
    by (simp_all add: scenario_env_def)
  have da: "distinct (enumerated_pids abandoned_procs)" by (simp add: abandoned_enumerated)
  have ma: "Some (scenario_info 7) \<in> set abandoned_procs" by (simp add: abandoned_member)
  have ra: "collect_phase abandoned_env 4 abandoned_procs scenario_state
              = (Some OSError, snd (collect_phase abandoned_env 4 abandoned_procs scenario_state))"
    using abandoned_run by (metis prod.collapse)
  from first_observation_zero_delta[OF scenario_completes d m(1) p(1) f(1)]
       first_observation_zero_delta[OF scenario_completes d m(2) p(2) f(2)]
       first_observation_zero_delta[OF ra da ma p(1) f(1)]
       scenario_acquire(3,5) pr f abandoned_run
  show ?thesis by auto
qed

text \<open>
  The claim as stated fails for pid \<open>7\<close>: the counters fetched for its sample are
  (100, 200), and the entry left for the next pass is the later re-fetch (150, 250).
\<close>

theorem first_observation_baseline_refetched:
  "previous_io_counters scenario_state 7 = None
   \<and> io_counters_call scenario_env 7 = Inr \<lparr>read_bytes = 100, write_bytes = 200\<rparr>
   \<and> previous_io_counters
       (snd (collect_phase scenario_env 4 scenario_procs scenario_state)) 7
      = Some \<lparr>read_bytes = 150, write_bytes = 250\<rparr>"
proof -
  have d: "distinct (enumerated_pids scenario_procs)" by (simp add: scenario_enumerated)
  have b: "cycle_baseline scenario_env (7 \<in> process_objects_cache scenario_state) 7
             = Some \<lparr>read_bytes = 150, write_bytes = 250\<rparr>"
    unfolding cycle_baseline_def scenario_acquire
    by (simp add: main_counters_def scenario_env_def)
  have "previous_io_counters
       (snd (collect_phase scenario_env 4 scenario_procs scenario_state)) 7
      = Some \<lparr>read_bytes = 150, write_bytes = 250\<rparr>"
    using collect_phase_baseline[OF scenario_completes d, of 7] b
    by (simp add: scenario_enumerated)
  then show ?thesis by (simp add: scenario_state_def scenario_env_def)
qed


theorem io_delta_clamped_witness:
  "\<exists>s. previous_io_counters scenario_state 5 = Some \<lparr>read_bytes = 1000, write_bytes = 5000\<rparr>
     \<and> io_counters_call scenario_env 5 = Inr \<lparr>read_bytes = 800, write_bytes = 7000\<rparr>
     \<and> map_of (current_snapshot_data
                 (snd (collect_phase scenario_env 4 scenario_procs scenario_state))) 5 = Some s
     \<and> delta_read_bytes s = 0 \<and> delta_write_bytes s = 2000"
proof -
  have d: "distinct (enumerated_pids scenario_procs)" by (simp add: scenario_enumerated)
  have m: "Some (scenario_info 5) \<in> set scenario_procs" by (simp add: scenario_member)
  have p: "info_pid (scenario_info 5) = Some 5" by (simp add: scenario_info_def)
  have c: "previous_io_counters scenario_state 5 = Some \<lparr>read_bytes = 1000, write_bytes = 5000\<rparr>"
    by (simp add: scenario_state_def)
  have i: "io_counters_call scenario_env 5 = Inr \<lparr>read_bytes = 800, write_bytes = 7000\<rparr>"
    by (simp add: scenario_env_def)
  from io_delta_clamped[OF scenario_completes d m p] obtain s where
    s: "map_of (current_snapshot_data
                 (snd (collect_phase scenario_env 4 scenario_procs scenario_state))) 5 = Some s"
    and e: "\<forall>prev_io current_io.
            previous_io_counters scenario_state 5 = Some prev_io
            \<and> io_counters_call scenario_env 5 = Inr current_io
            \<and> acquire scenario_env (5 \<in> process_objects_cache scenario_state) 5 \<noteq> Lost \<longrightarrow>
              delta_read_bytes s = max 0 (read_bytes current_io - read_bytes prev_io)
            \<and> delta_write_bytes s = max 0 (write_bytes current_io - write_bytes prev_io)"
    by blast
  from e c i scenario_acquire(1) have "delta_read_bytes s = 0 \<and> delta_write_bytes s = 2000"
    by simp
  with s c i show ?thesis by blast
qed

theorem stored_cpu_share_bounds_witness:
  "(\<exists>s. cpu_percent_call scenario_env 9 = Inr 250
     \<and> map_of (current_snapshot_data
                 (snd (collect_phase scenario_env 4 scenario_procs scenario_state))) 9 = Some s
     \<and> cpu_percent s \<le> 100 \<and> 0 \<le> cpu_percent s \<and> cpu_percent s = 125 / 2)
   \<and> (\<exists>s. cpu_percent_call cpu_fail_env 9 = Inl AccessDenied
     \<and> map_of (current_snapshot_data
                 (snd (collect_phase cpu_fail_env 4 scenario_procs scenario_state))) 9 = Some s
     \<and> cpu_percent s = 0)
   \<and> (\<exists>s. acquire scenario_env (6 \<in> process_objects_cache scenario_state) 6 = Lost
     \<and> map_of (current_snapshot_data
                 (snd (collect_phase scenario_env 4 scenario_procs scenario_state))) 6 = Some s
     \<and> cpu_percent s = 0)"
proof -
  have d: "distinct (enumerated_pids scenario_procs)" by (simp add: scenario_enumerated)
  have m: "Some (scenario_info 9) \<in> set scenario_procs"
    "Some (scenario_info 6) \<in> set scenario_procs" by (simp_all add: scenario_member)
  have p: "info_pid (scenario_info 9) = Some 9" "info_pid (scenario_info 6) = Some 6"
    by (simp_all add: scenario_info_def)
  have c: "cpu_percent_call scenario_env 9 = Inr 250" by (simp add: scenario_env_def)
  have cf: "cpu_percent_call cpu_fail_env 9 = Inl AccessDenied"
    by (simp add: cpu_fail_env_def)
  from stored_cpu_share_bounds[OF scenario_completes d m(1) p(1)] obtain s where
    s: "map_of (current_snapshot_data
                 (snd (collect_phase scenario_env 4 scenario_procs scenario_state))) 9 = Some s"
    and u: "cpu_percent s \<le> 100"
    and l: "(\<forall>raw. cpu_percent_call scenario_env 9 = Inr raw \<longrightarrow> 0 \<le> raw) \<longrightarrow> 0 \<le> cpu_percent s"
    and e: "\<forall>raw. cpu_percent_call scenario_env 9 = Inr raw
               \<and> acquire scenario_env (9 \<in> process_objects_cache scenario_state) 9 \<noteq> Lost \<longrightarrow>
               cpu_percent s = min 100 (if (4::int) > 0 then raw / real_of_int 4 else raw)"
    by blast
  from l c have "0 \<le> cpu_percent s" by simp
  moreover from e c scenario_acquire(5) have "cpu_percent s = 125 / 2" by simp
  ultimately have first: "\<exists>s. cpu_percent_call scenario_env 9 = Inr 250
     \<and> map_of (current_snapshot_data
                 (snd (collect_phase scenario_env 4 scenario_procs scenario_state))) 9 = Some s
     \<and> cpu_percent s \<le> 100 \<and> 0 \<le> cpu_percent s \<and> cpu_percent s = 125 / 2"
    using s u c by blast
  from stored_cpu_share_bounds[OF cpu_fail_completes d m(1) p(1)] cf
  have second: "\<exists>s. cpu_percent_call cpu_fail_env 9 = Inl AccessDenied
     \<and> map_of (current_snapshot_data
                 (snd (collect_phase cpu_fail_env 4 scenario_procs scenario_state))) 9 = Some s
     \<and> cpu_percent s = 0"
    by auto
  from stored_cpu_share_bounds[OF scenario_completes d m(2) p(2)] scenario_acquire(2)
  have third: "\<exists>s. acquire scenario_env (6 \<in> process_objects_cache scenario_state) 6 = Lost
     \<and> map_of (current_snapshot_data
                 (snd (collect_phase scenario_env 4 scenario_procs scenario_state))) 6 = Some s
     \<and> cpu_percent s = 0"
    by auto
  from first second third show ?thesis by blast
qed

text \<open>
  The claim as stated fails for pid \<open>7\<close>: there is no lower clamp, and the raw value
  \<open>-8\<close> on four cores is stored as \<open>-2\<close>.
\<close>

theorem stored_cpu_share_negative:
  "map_option cpu_percent
     (map_of (current_snapshot_data
                (snd (collect_phase scenario_env 4 scenario_procs scenario_state))) 7)
     = Some (- 2)
   \<and> cpu_percent_call scenario_env 7 = Inr (- 8)"
proof -
  have d: "distinct (enumerated_pids scenario_procs)" by (simp add: scenario_enumerated)
  have m: "Some (scenario_info 7) \<in> set scenario_procs" by (simp add: scenario_member)
  have p: "info_pid (scenario_info 7) = Some 7" by (simp add: scenario_info_def)
  have c: "cpu_percent_call scenario_env 7 = Inr (- 8)" by (simp add: scenario_env_def)
  have "map_of (current_snapshot_data
                (snd (collect_phase scenario_env 4 scenario_procs scenario_state))) 7
          = Some (fst (fetch_details scenario_env 4 (previous_io_counters scenario_state)
                         (scenario_info 7) 7))"
    using collect_phase_sample(1)[OF scenario_completes d m p]
    by (simp add: expected_sample_def scenario_acquire)
  then show ?thesis
    using c by (simp add: fetch_details_cpu)
qed

theorem counter_cache_replaced_witness:
  "dom (previous_io_counters
          (snd (collect_phase scenario_env 4 scenario_procs scenario_state)))
     \<subseteq> {5, 6, 7, 8, 9}
   \<and> previous_io_counters
       (snd (collect_phase scenario_env 4 scenario_procs scenario_state)) 5
      = Some \<lparr>read_bytes = 800, write_bytes = 7000\<rparr>
   \<and> previous_io_counters
       (snd (collect_phase scenario_env 4 scenario_procs scenario_state)) 6 = None
   \<and> previous_io_counters
       (snd (collect_phase scenario_env 4 scenario_procs scenario_state)) 42 = None
   \<and> fst (collect_phase abandoned_env 4 abandoned_procs scenario_state) = Some OSError
   \<and> previous_io_counters (snd (collect_phase abandoned_env 4 abandoned_procs scenario_state))
       = previous_io_counters scenario_state"
proof -
  have d: "distinct (enumerated_pids scenario_procs)" by (simp add: scenario_enumerated)
  have b: "cycle_baseline scenario_env (5 \<in> process_objects_cache scenario_state) 5
             = Some \<lparr>read_bytes = 800, write_bytes = 7000\<rparr>"
    "cycle_baseline scenario_env (6 \<in> process_objects_cache scenario_state) 6 = None"
    unfolding cycle_baseline_def scenario_acquire
    by (simp_all add: main_counters_def scenario_env_def)
  note r = counter_cache_replaced[OF scenario_completes d]
  from r have "dom (previous_io_counters
          (snd (collect_phase scenario_env 4 scenario_procs scenario_state)))
     \<subseteq> {5, 6, 7, 8, 9}" by (simp add: scenario_enumerated)
  moreover from r have "\<And>p. previous_io_counters
       (snd (collect_phase scenario_env 4 scenario_procs scenario_state)) p
      = (if p \<in> set (enumerated_pids scenario_procs)
         then cycle_baseline scenario_env (p \<in> process_objects_cache scenario_state) p
         else None)" by blast
  ultimately have completed: "dom (previous_io_counters
          (snd (collect_phase scenario_env 4 scenario_procs scenario_state)))
     \<subseteq> {5, 6, 7, 8, 9}
   \<and> previous_io_counters
       (snd (collect_phase scenario_env 4 scenario_procs scenario_state)) 5
      = Some \<lparr>read_bytes = 800, write_bytes = 7000\<rparr>
   \<and> previous_io_counters
       (snd (collect_phase scenario_env 4 scenario_procs scenario_state)) 6 = None
   \<and> previous_io_counters
       (snd (collect_phase scenario_env 4 scenario_procs scenario_state)) 42 = None"
    by (simp add: scenario_enumerated b)
  have da: "distinct (enumerated_pids abandoned_procs)" by (simp add: abandoned_enumerated)
  have ra: "collect_phase abandoned_env 4 abandoned_procs scenario_state
              = (Some OSError, snd (collect_phase abandoned_env 4 abandoned_procs scenario_state))"
    using abandoned_run by (metis prod.collapse)
  from counter_cache_replaced[OF ra da]
  have "previous_io_counters (snd (collect_phase abandoned_env 4 abandoned_procs scenario_state))
       = previous_io_counters scenario_state" by simp
  with completed abandoned_run show ?thesis by blast
qed

text \<open>
  The claim as stated fails for a pass that is abandoned: the cache keeps the entry of
  pid \<open>5\<close>, which is no longer enumerated and whose counters were not fetched in the pass.
\<close>

theorem abandoned_pass_keeps_dead_entry:
  "fst (collect_phase abandoned_env 4 abandoned_procs scenario_state) = Some OSError
   \<and> enumerated_pids abandoned_procs = [6, 7]
   \<and> previous_io_counters (snd (collect_phase abandoned_env 4 abandoned_procs scenario_state)) 5
       = Some \<lparr>read_bytes = 1000, write_bytes = 5000\<rparr>"
proof -
  have ra: "collect_phase abandoned_env 4 abandoned_procs scenario_state
              = (Some OSError, snd (collect_phase abandoned_env 4 abandoned_procs scenario_state))"
    using abandoned_run by (metis prod.collapse)
  from abandoned_pass_keeps_cache[OF ra] abandoned_run abandoned_enumerated
  show ?thesis by (simp add: scenario_state_def)
qed


end
